theory Spec2Isabelle
  imports Main "HOL-Library.Word"
begin

section \<open>The sorted-vector map of \<open>map.hpp\<close>\<close>

text \<open>
  Class \<open>tsmap<K, V>\<close> keeps a \<open>std::vector<std::pair<K, V>>\<close> behind a mutex. Every
  public member function takes the lock for its whole body, so a call is one atomic step on
  the vector and the vector is the whole state. Keys are compared with \<open><\<close> and \<open>==\<close>, taken
  here from a linear order. An iterator into the vector, and a pointer or reference to the
  \<open>second\<close> component of an element, is the index of that element; \<open>map.end()\<close> is the length
  of the vector and \<open>nullptr\<close> is \<open>None\<close>.
\<close>

type_synonym ('k, 'v) tsmap = "('k \<times> 'v) list"

text \<open>
  \<open>std::lower_bound(first, last, k, comp)\<close> with \<open>comp(l, r) = l.first < r\<close>: the halving
  search of the standard library over the range that starts at index \<open>first\<close> and holds
  \<open>len\<close> elements.
\<close>

function std_lower_bound :: "('k::linorder, 'v) tsmap \<Rightarrow> 'k \<Rightarrow> nat \<Rightarrow> nat \<Rightarrow> nat" where
  "std_lower_bound m k first len =
     (if 0 < len then
        (let half = len div 2; middle = first + half in
         if fst (m ! middle) < k
         then std_lower_bound m k (middle + 1) (len - half - 1)
         else std_lower_bound m k first half)
      else first)"
  by pat_completeness auto
termination
  by (relation "measure (\<lambda>(m, k, first, len). len)") auto

declare std_lower_bound.simps [simp del]

text \<open>\<open>tsmap::lower_bound\<close> searches the whole vector.\<close>

definition lower_bound :: "('k::linorder, 'v) tsmap \<Rightarrow> 'k \<Rightarrow> nat" where
  "lower_bound m k = std_lower_bound m k 0 (length m)"

text \<open>
  \<open>tsmap::find\<close>: the only test made on the position found is the one against
  \<open>map.end()\<close>; the result points to the \<open>second\<close> of the element at that position.
\<close>

definition find_tsmap :: "('k::linorder, 'v) tsmap \<Rightarrow> 'k \<Rightarrow> nat option" where
  "find_tsmap m k =
     (let found = lower_bound m k in
      if found = length m then None else Some found)"

text \<open>\<open>std::vector::emplace(pos, ...)\<close> constructs the new element in front of \<open>pos\<close>.\<close>

definition vector_emplace :: "'a list \<Rightarrow> nat \<Rightarrow> 'a \<Rightarrow> 'a list" where
  "vector_emplace xs pos x = take pos xs @ x # drop pos xs"

text \<open>
  \<open>tsmap::emplace_if_not_found\<close>: \<open>V\<close> is the constructor of the value type that the
  piecewise construction applies to \<open>args\<close>. The result is the reference returned (the index
  of the element) and the vector afterwards.
\<close>

definition emplace_if_not_found ::
  "('a \<Rightarrow> 'v) \<Rightarrow> 'k::linorder \<Rightarrow> 'a \<Rightarrow> ('k, 'v) tsmap \<Rightarrow> nat \<times> ('k, 'v) tsmap" where
  "emplace_if_not_found V k args m =
     (let bound = lower_bound m k in
      if bound \<noteq> length m \<and> fst (m ! bound) = k then (bound, m)
      else (bound, vector_emplace m bound (k, V args)))"

text \<open>
  \<open>tsmap::add_if_not_found\<close>: the callable \<open>lambda\<close> may have effects of its own, so it is a
  function from the caller's state \<open>'u\<close> to the value and the state afterwards; calling it
  shows in that state.
\<close>

definition add_if_not_found ::
  "'k::linorder \<Rightarrow> ('u \<Rightarrow> 'v \<times> 'u) \<Rightarrow> ('k, 'v) tsmap \<Rightarrow> 'u \<Rightarrow> (nat \<times> ('k, 'v) tsmap) \<times> 'u" where
  "add_if_not_found k lambda m u =
     (let bound = lower_bound m k in
      if bound \<noteq> length m \<and> fst (m ! bound) = k then ((bound, m), u)
      else (let (v, u') = lambda u in ((bound, vector_emplace m bound (k, v)), u')))"

text \<open>
  The public interface as data, and the map that a sequence of calls leaves behind when it
  starts from the empty vector of a freshly constructed \<open>tsmap\<close>.
\<close>

datatype ('k, 'a, 'v, 'u) operation =
    Find 'k
  | Emplace_if_not_found 'k 'a
  | Add_if_not_found 'k "'u \<Rightarrow> 'v \<times> 'u"

fun call ::
  "('a \<Rightarrow> 'v) \<Rightarrow> ('k::linorder, 'a, 'v, 'u) operation \<Rightarrow> ('k, 'v) tsmap \<times> 'u \<Rightarrow> ('k, 'v) tsmap \<times> 'u" where
  "call V (Find k) (m, u) = (m, u)"
| "call V (Emplace_if_not_found k args) (m, u) = (snd (emplace_if_not_found V k args m), u)"
| "call V (Add_if_not_found k lambda) (m, u) =
     (let ((found, m'), u') = add_if_not_found k lambda m u in (m', u'))"

definition tsmap_after ::
  "('a \<Rightarrow> 'v) \<Rightarrow> ('k::linorder, 'a, 'v, 'u) operation list \<Rightarrow> 'u \<Rightarrow> ('k, 'v) tsmap" where
  "tsmap_after V cs u = fst (fold (call V) cs ([], u))"

text \<open>A callable that also counts how often it has been called.\<close>

definition counted :: "('u \<Rightarrow> 'v \<times> 'u) \<Rightarrow> nat \<times> 'u \<Rightarrow> 'v \<times> nat \<times> 'u" where
  "counted lambda = (\<lambda>(n, u). let (v, u') = lambda u in (v, Suc n, u'))"

text \<open>The invariant of the vector: keys strictly ascending.\<close>

definition sorted_keys :: "('k::linorder, 'v) tsmap \<Rightarrow> bool" where
  "sorted_keys m = sorted_wrt (<) (map fst m)"


section \<open>The eventfd channel and the limiter of \<open>eventfd.hpp\<close>\<close>

subsection \<open>The descriptor\<close>

text \<open>
  Class \<open>fd\<close> wraps a stream descriptor opened on an eventfd object. The kernel object and
  the asynchronous transfers of the I/O library are not part of the repository.

  Modelled from the spec: the signal channel is a kernel counter that a write of eight bytes
  increments by the value written and that is readable when the count is above zero; a read
  of eight bytes returns the accumulated count and resets it to zero. The limits are those of
  the kernel primitive: the value \<open>2\<^sup>6\<^sup>4 - 1\<close> is refused, and a write that would take the
  counter above \<open>2\<^sup>6\<^sup>4 - 2\<close> does not complete (here it stays \<open>Pending\<close> and is not followed
  further).
\<close>

datatype error_code = EINVAL

datatype completion = Completed "error_code option" nat | Pending

definition eventfd_max :: nat where
  "eventfd_max = 2 ^ 64 - 2"

record fd =
  descriptor :: "64 word"

text \<open>
  \<open>boost::asio::async_write(fd, buffer(&count, sizeof(count)), handler)\<close>: the result is what
  the completion handler receives (error and bytes transferred) and the descriptor afterwards.
\<close>

definition async_write :: "fd \<Rightarrow> 64 word \<Rightarrow> completion \<times> fd" where
  "async_write f count =
     (if count = - 1 then (Completed (Some EINVAL) 0, f)
      else if unat (descriptor f) + unat count \<le> eventfd_max
      then (Completed None 8, f\<lparr>descriptor := descriptor f + count\<rparr>)
      else (Pending, f))"

text \<open>
  A coroutine that starts an asynchronous operation with its \<open>yield_context\<close> is suspended,
  and the other handlers of the \<open>io_service\<close> run until the operation has completed. A yield
  context is the list of what the others do to the object \<open>'w\<close> that holds the descriptor,
  one entry for each time the coroutine is suspended; with no entry left the coroutine is
  not resumed any more, which is the result \<open>None\<close>.

  \<open>fd::async_read\<close> transfers exactly eight bytes into \<open>count\<close> and returns it as
  \<open>int64_t\<close>. The descriptor lives inside \<open>'w\<close>: \<open>this\<close> selects it and \<open>this_update\<close>
  changes it.
\<close>

type_synonym 'w yield_context = "('w \<Rightarrow> 'w) list"

fun async_read ::
  "('w \<Rightarrow> fd) \<Rightarrow> ((fd \<Rightarrow> fd) \<Rightarrow> 'w \<Rightarrow> 'w) \<Rightarrow> 'w yield_context \<Rightarrow> 'w \<Rightarrow>
     (int \<times> 'w yield_context \<times> 'w) option" where
  "async_read this this_update [] w = None"
| "async_read this this_update (others # yield) w =
     (let w = others w; count = descriptor (this w) in
      if count = 0 then async_read this this_update yield w
      else Some (sint count, yield, this_update (\<lambda>f. f\<lparr>descriptor := 0\<rparr>) w))"

text \<open>What the others have done after the given suspensions.\<close>

definition run_others :: "'w yield_context \<Rightarrow> 'w \<Rightarrow> 'w" where
  "run_others slices w = fold (\<lambda>others w. others w) slices w"

subsection \<open>The unlimited channel\<close>

text \<open>
  Class \<open>unlimited\<close>: the reference to the \<open>io_service\<close> carries no state of its own.
  \<open>produced\<close> gives \<open>async_write\<close> a completion handler with an empty body, so the result of
  the transfer is dropped. \<open>consume\<close> converts the \<open>int64_t\<close> of \<open>fd::async_read\<close> back to
  \<open>uint64_t\<close>.
\<close>

record unlimited =
  fd :: fd

definition produced :: "64 word \<Rightarrow> unlimited \<Rightarrow> unlimited" where
  "produced count u = u\<lparr>unlimited.fd := snd (async_write (unlimited.fd u) count)\<rparr>"

definition consume ::
  "unlimited yield_context \<Rightarrow> unlimited \<Rightarrow> (64 word \<times> unlimited yield_context \<times> unlimited) option" where
  "consume yield u =
     (case async_read unlimited.fd unlimited.fd_update yield u of
        None \<Rightarrow> None
      | Some (count, yield', u') \<Rightarrow> Some (word_of_int count, yield', u'))"

subsection \<open>The limiter\<close>

record limiter =
  fd :: fd
  m_limit :: "64 word"
  m_outstanding :: "64 word"

text \<open>The constructor: a fresh eventfd (initial value 0), the given limit, nothing outstanding.\<close>

definition limiter_init :: "64 word \<Rightarrow> limiter" where
  "limiter_init limit = \<lparr>fd = \<lparr>descriptor = 0\<rparr>, m_limit = limit, m_outstanding = 0\<rparr>"

text \<open>\<open>limiter::wait\<close>: read the count, subtract it from \<open>m_outstanding\<close>, return it.\<close>

definition wait ::
  "limiter yield_context \<Rightarrow> limiter \<Rightarrow> (64 word \<times> limiter yield_context \<times> limiter) option" where
  "wait yield l =
     (case async_read fd fd_update yield l of
        None \<Rightarrow> None
      | Some (count, yield', l') \<Rightarrow>
          (let count = (word_of_int count :: 64 word) in
           Some (count, yield', l'\<lparr>m_outstanding := m_outstanding l' - count\<rparr>)))"

text \<open>\<open>limiter::wait_for_all_outstanding\<close>: \<open>while ( m_outstanding ) wait(yield);\<close>\<close>

function wait_for_all_outstanding ::
  "limiter yield_context \<Rightarrow> limiter \<Rightarrow> (limiter yield_context \<times> limiter) option" where
  "wait_for_all_outstanding yield l =
     (if m_outstanding l \<noteq> 0 then
        (case wait yield l of
           None \<Rightarrow> None
         | Some (count, yield', l') \<Rightarrow> wait_for_all_outstanding yield' l')
      else Some (yield, l))"
  by pat_completeness auto
termination
proof -
  have shorter: "length yield' < length yield"
    if "async_read fd fd_update yield l = Some (count, yield', l')"
    for yield yield' :: "limiter yield_context" and l l' count
    using that
    by (induction yield arbitrary: l) (auto simp: Let_def less_Suc_eq split: if_splits)
  show ?thesis
    by (relation "measure (\<lambda>(yield, l). length yield)")
      (auto simp: wait_def Let_def split: option.splits dest: shorter)
qed

declare wait_for_all_outstanding.simps [simp del]

text \<open>
  \<open>increase_limit\<close> and \<open>decrease_limit\<close>: the compound assignment on the atomic
  \<open>uint64_t\<close>, whose value is the value stored.
\<close>

definition increase_limit :: "64 word \<Rightarrow> limiter \<Rightarrow> 64 word \<times> limiter" where
  "increase_limit l this = (m_limit this + l, this\<lparr>m_limit := m_limit this + l\<rparr>)"

definition decrease_limit :: "64 word \<Rightarrow> limiter \<Rightarrow> 64 word \<times> limiter" where
  "decrease_limit l this = (m_limit this - l, this\<lparr>m_limit := m_limit this - l\<rparr>)"

text \<open>
  Class \<open>limiter::job\<close>: the flag and the reference to the limiter that made the job. A
  reference is an address \<open>'r\<close>; the store gives the limiter at each address, and \<open>user\<close> is
  whatever the error handlers of the callers act upon.
\<close>

record 'r job =
  completed :: bool
  limit :: 'r

record ('r, 'u) store =
  limiters :: "'r \<Rightarrow> limiter"
  user :: 'u

text \<open>
  \<open>job::done(efn)\<close>: the completion handler given to \<open>async_write\<close> calls \<open>efn\<close> when the
  transfer reports an error or a number of bytes other than \<open>sizeof(uint64_t)\<close>.
\<close>

definition job_done ::
  "(error_code option \<Rightarrow> nat \<Rightarrow> 'u \<Rightarrow> 'u) \<Rightarrow> 'r job \<Rightarrow> ('r, 'u) store \<Rightarrow> 'r job \<times> ('r, 'u) store" where
  "job_done efn j s =
     (if \<not> completed j then
        (let l = limiters s (limit j);
             (result, f) = async_write (fd l) 1
         in (j\<lparr>completed := True\<rparr>,
             s\<lparr>limiters := (limiters s)(limit j := l\<lparr>fd := f\<rparr>),
               user := (case result of
                          Completed error bytes \<Rightarrow>
                            if error \<noteq> None \<or> bytes \<noteq> 8 then efn error bytes (user s) else user s
                        | Pending \<Rightarrow> user s)\<rparr>))
      else (j, s))"

text \<open>The destructor \<open>~job\<close> calls \<open>done\<close> with a handler that does nothing.\<close>

definition job_destructor :: "'r job \<Rightarrow> ('r, 'u) store \<Rightarrow> 'r job \<times> ('r, 'u) store" where
  "job_destructor j s = job_done (\<lambda>error bytes u. u) j s"

text \<open>
  The life of a job in the hands of its owner: any number of explicit calls of \<open>done\<close>, each
  with its own handler, and then the destructor.
\<close>

definition job_lifetime ::
  "(error_code option \<Rightarrow> nat \<Rightarrow> 'u \<Rightarrow> 'u) list \<Rightarrow> 'r job \<Rightarrow> ('r, 'u) store \<Rightarrow> 'r job \<times> ('r, 'u) store" where
  "job_lifetime efns j s =
     (let (j', s') = fold (\<lambda>efn (j, s). job_done efn j s) efns (j, s)
      in job_destructor j' s')"

text \<open>
  \<open>limiter::next_job\<close>, for the limiter at address \<open>this\<close>: the loop re-reads \<open>m_limit\<close> on
  every round and leaves it when the limit is 0 or above \<open>m_outstanding\<close>.
\<close>

function next_job ::
  "'r \<Rightarrow> limiter yield_context \<Rightarrow> limiter \<Rightarrow> ('r job \<times> limiter yield_context \<times> limiter) option" where
  "next_job this yield l =
     (let limit = m_limit l in
      if limit = 0 \<or> m_outstanding l < limit then
        Some (\<lparr>completed = False, limit = this\<rparr>, yield, l\<lparr>m_outstanding := m_outstanding l + 1\<rparr>)
      else
        (case wait yield l of
           None \<Rightarrow> None
         | Some (count, yield', l') \<Rightarrow> next_job this yield' l'))"
  by pat_completeness auto
termination
proof -
  have shorter: "length yield' < length yield"
    if "async_read fd fd_update yield l = Some (count, yield', l')"
    for yield yield' :: "limiter yield_context" and l l' count
    using that
    by (induction yield arbitrary: l) (auto simp: Let_def less_Suc_eq split: if_splits)
  show ?thesis
    by (relation "measure (\<lambda>(this, yield, l). length yield)")
      (auto simp: wait_def Let_def split: option.splits dest: shorter)
qed

declare next_job.simps [simp del]

text \<open>
  What the owner of an outstanding job does to the limiter when \<open>done\<close> is called on it for
  the first time: the write of the count 1.
\<close>

definition signal :: "limiter \<Rightarrow> limiter" where
  "signal l = l\<lparr>fd := snd (async_write (fd l) 1)\<rparr>"


section \<open>The map: lower bound, invariant and operations\<close>

subsection \<open>The halving search finds the partition point\<close>

text \<open>
  On a vector with ascending keys the search returns the position that splits it into the
  keys below \<open>k\<close> and the keys not below \<open>k\<close>.
\<close>

lemma std_lower_bound_partition:
  "first + len \<le> length m \<Longrightarrow> sorted_wrt (<) (map fst m) \<Longrightarrow>
   (\<forall>j<first. fst (m ! j) < k) \<Longrightarrow>
   (\<forall>j. first + len \<le> j \<and> j < length m \<longrightarrow> \<not> fst (m ! j) < k) \<Longrightarrow>
   (let r = std_lower_bound m k first len in
      r \<le> length m \<and> (\<forall>j<r. fst (m ! j) < k) \<and>
      (\<forall>j. r \<le> j \<and> j < length m \<longrightarrow> \<not> fst (m ! j) < k))"
proof (induction m k first len rule: std_lower_bound.induct)
  case (1 m k first len)
  show ?case
  proof (cases "0 < len")
    case False
    then have "std_lower_bound m k first len = first"
      by (subst std_lower_bound.simps) simp
    with "1.prems" False show ?thesis by simp
  next
    case True
    define half where "half = len div 2"
    define middle where "middle = first + half"
    have hl: "half < len" using True by (simp add: half_def)
    have mid: "middle < length m" using "1.prems"(1) hl by (simp add: middle_def)
    have srt: "fst (m ! i) \<le> fst (m ! j)" if "i \<le> j" "j < length m" for i j
    proof (cases "i = j")
      case True
      then show ?thesis by simp
    next
      case False
      with that have "i < j" "j < length (map fst m)" by simp_all
      from sorted_wrt_nth_less [OF "1.prems"(2) this] that show ?thesis by simp
    qed
    show ?thesis
    proof (cases "fst (m ! middle) < k")
      case lt: True
      have a: "\<forall>j<middle + 1. fst (m ! j) < k"
      proof (intro allI impI)
        fix j assume "j < middle + 1"
        then have "j \<le> middle" by simp
        from srt [OF this mid] lt show "fst (m ! j) < k" by simp
      qed
      have b: "middle + 1 + (len - half - 1) = first + len" using hl by (simp add: middle_def)
      have "let r = std_lower_bound m k (middle + 1) (len - half - 1) in
        r \<le> length m \<and> (\<forall>j<r. fst (m ! j) < k) \<and>
        (\<forall>j. r \<le> j \<and> j < length m \<longrightarrow> \<not> fst (m ! j) < k)"
        using "1.IH"(1) [OF True half_def middle_def lt] "1.prems" a b by simp
      moreover have "std_lower_bound m k first len =
          std_lower_bound m k (middle + 1) (len - half - 1)"
        using True lt by (subst std_lower_bound.simps) (simp add: half_def middle_def Let_def)
      ultimately show ?thesis by simp
    next
      case ge: False
      have a: "\<forall>j. first + half \<le> j \<and> j < length m \<longrightarrow> \<not> fst (m ! j) < k"
      proof (intro allI impI)
        fix j assume "first + half \<le> j \<and> j < length m"
        then have "fst (m ! middle) \<le> fst (m ! j)" using srt [of middle j] by (simp add: middle_def)
        with ge show "\<not> fst (m ! j) < k" by simp
      qed
      have "let r = std_lower_bound m k first half in
        r \<le> length m \<and> (\<forall>j<r. fst (m ! j) < k) \<and>
        (\<forall>j. r \<le> j \<and> j < length m \<longrightarrow> \<not> fst (m ! j) < k)"
        using "1.IH"(2) [OF True half_def middle_def ge] "1.prems" a hl by simp
      moreover have "std_lower_bound m k first len = std_lower_bound m k first half"
        using True ge by (subst std_lower_bound.simps) (simp add: half_def middle_def Let_def)
      ultimately show ?thesis by simp
    qed
  qed
qed

lemma lower_bound_position:
  assumes "sorted_keys m"
  shows "lower_bound m k \<le> length m"
    and "\<And>j. j < lower_bound m k \<Longrightarrow> fst (m ! j) < k"
    and "\<And>j. lower_bound m k \<le> j \<Longrightarrow> j < length m \<Longrightarrow> k \<le> fst (m ! j)"
proof -
  have "let r = std_lower_bound m k 0 (length m) in
      r \<le> length m \<and> (\<forall>j<r. fst (m ! j) < k) \<and>
      (\<forall>j. r \<le> j \<and> j < length m \<longrightarrow> \<not> fst (m ! j) < k)"
    using assms by (intro std_lower_bound_partition) (auto simp: sorted_keys_def)
  then show "lower_bound m k \<le> length m"
    and "\<And>j. j < lower_bound m k \<Longrightarrow> fst (m ! j) < k"
    and "\<And>j. lower_bound m k \<le> j \<Longrightarrow> j < length m \<Longrightarrow> k \<le> fst (m ! j)"
    by (auto simp: lower_bound_def Let_def not_less)
qed

lemma lower_bound_takeWhile:
  assumes "sorted_keys m"
  shows "lower_bound m k = length (takeWhile (\<lambda>l. fst l < k) m)"
proof -
  define r where "r = lower_bound m k"
  have r1: "r \<le> length m"
    unfolding r_def by (rule lower_bound_position(1) [OF assms])
  have r2: "j < r \<Longrightarrow> fst (m ! j) < k" for j
    unfolding r_def by (rule lower_bound_position(2) [OF assms])
  have r3: "r < length m \<Longrightarrow> \<not> fst (m ! r) < k"
    using lower_bound_position(3) [OF assms, of k r] by (simp add: r_def not_less)
  note r = r1 r2 r3
  have "takeWhile (\<lambda>l. fst l < k) m = take r m"
    by (rule takeWhile_eq_take_P_nth) (use r in auto)
  then show ?thesis using r(1) by (simp add: r_def)
qed

lemma takeWhile_present:
  "sorted_wrt (<) (map fst m) \<Longrightarrow>
   (length (takeWhile (\<lambda>l. fst l < k) m) \<noteq> length m \<and>
    fst (m ! length (takeWhile (\<lambda>l. fst l < (k::'k::linorder)) m)) = k) \<longleftrightarrow> k \<in> fst ` set m"
  by (induction m) (auto simp: rev_image_eqI)

lemma present_iff:
  "sorted_keys m \<Longrightarrow>
   (lower_bound m k \<noteq> length m \<and> fst (m ! lower_bound m k) = k) \<longleftrightarrow> k \<in> fst ` set m"
  using takeWhile_present [of m k] by (simp add: lower_bound_takeWhile sorted_keys_def)

lemma lower_bound_present:
  assumes "sorted_keys m" "k \<in> fst ` set m"
  shows "lower_bound m k < length m" "fst (m ! lower_bound m k) = k"
  using assms present_iff [of m k] lower_bound_position(1) [of m k] by auto

lemma lower_bound_above:
  assumes "sorted_keys m" "k \<notin> fst ` set m" "lower_bound m k \<le> j" "j < length m"
  shows "k < fst (m ! j)"
proof -
  have "k \<le> fst (m ! j)" using assms by (simp add: lower_bound_position(3))
  moreover have "fst (m ! j) \<in> fst ` set m" using assms(4) by simp
  ultimately show ?thesis using assms(2) by (metis order_le_less)
qed

lemma sorted_keys_distinct: "sorted_keys m \<Longrightarrow> sorted (map fst m) \<and> distinct (map fst m)"
  by (simp add: sorted_keys_def strict_sorted_iff)

lemma lower_bound_unique:
  assumes "sorted_keys m" "i < length m" "fst (m ! i) = k"
  shows "lower_bound m k = i"
proof -
  have k: "k \<in> fst ` set m" using assms(2,3) by (metis image_eqI nth_mem)
  have d: "distinct (map fst m)" using assms(1) by (simp add: sorted_keys_distinct)
  have l: "lower_bound m k < length m" "fst (m ! lower_bound m k) = k"
    using lower_bound_present [OF assms(1) k] by simp_all
  have "(map fst m ! lower_bound m k = map fst m ! i) = (lower_bound m k = i)"
    by (rule nth_eq_iff_index_eq [OF d]) (simp_all add: l assms)
  then show ?thesis using l assms(2,3) by simp
qed

subsection \<open>What the operations do on a sorted vector\<close>

lemma emplace_absent:
  assumes "sorted_keys m" "k \<notin> fst ` set m"
  shows "emplace_if_not_found V k args m =
    (lower_bound m k, take (lower_bound m k) m @ (k, V args) # drop (lower_bound m k) m)"
  using assms present_iff [of m k] by (auto simp: emplace_if_not_found_def vector_emplace_def Let_def)

lemma emplace_present:
  assumes "sorted_keys m" "k \<in> fst ` set m"
  shows "emplace_if_not_found V k args m = (lower_bound m k, m)"
  using assms present_iff [of m k] by (auto simp: emplace_if_not_found_def Let_def)

lemma add_absent:
  assumes "sorted_keys m" "k \<notin> fst ` set m"
  shows "add_if_not_found k lambda m u =
    ((lower_bound m k, take (lower_bound m k) m @ (k, fst (lambda u)) # drop (lower_bound m k) m),
     snd (lambda u))"
  using assms present_iff [of m k]
  by (auto simp: add_if_not_found_def vector_emplace_def Let_def split: prod.splits)

lemma add_present:
  assumes "sorted_keys m" "k \<in> fst ` set m"
  shows "add_if_not_found k lambda m u = ((lower_bound m k, m), u)"
  using assms present_iff [of m k] by (auto simp: add_if_not_found_def Let_def)

lemma sorted_insert:
  "sorted_wrt (<) (map fst m) \<Longrightarrow> k \<notin> fst ` set m \<Longrightarrow>
   sorted_wrt (<) (map fst (takeWhile (\<lambda>l. fst l < k) m @ (k, v) #
     dropWhile (\<lambda>l. fst l < (k::'k::linorder)) m))"
  by (induction m) (auto simp: rev_image_eqI dest: set_takeWhileD set_dropWhileD)

lemma sorted_keys_insert:
  assumes "sorted_keys m" "k \<notin> fst ` set m"
  shows "sorted_keys (take (lower_bound m k) m @ (k, v) # drop (lower_bound m k) m)"
  using sorted_insert [of m k v] assms
  by (simp add: sorted_keys_def lower_bound_takeWhile
      takeWhile_eq_take [symmetric] dropWhile_eq_drop [symmetric])

lemma sorted_keys_emplace:
  "sorted_keys m \<Longrightarrow> sorted_keys (snd (emplace_if_not_found V k args m))"
  by (cases "k \<in> fst ` set m") (simp_all add: emplace_present emplace_absent sorted_keys_insert)

lemma sorted_keys_add:
  "sorted_keys m \<Longrightarrow> sorted_keys (snd (fst (add_if_not_found k lambda m u)))"
  by (cases "k \<in> fst ` set m") (simp_all add: add_present add_absent sorted_keys_insert)

lemma sorted_keys_call: "sorted_keys (fst s) \<Longrightarrow> sorted_keys (fst (call V c s))"
proof (cases s)
  case (Pair m u)
  assume "sorted_keys (fst s)"
  with Pair have m: "sorted_keys m" by simp
  show ?thesis
  proof (cases c)
    case (Find k)
    with Pair m show ?thesis by simp
  next
    case (Emplace_if_not_found k args)
    with Pair m show ?thesis by (simp add: sorted_keys_emplace)
  next
    case (Add_if_not_found k lambda)
    with Pair sorted_keys_add [OF m, of k lambda u] show ?thesis
      by (auto split: prod.splits)
  qed
qed

lemma sorted_keys_fold:
  "sorted_keys (fst s) \<Longrightarrow> sorted_keys (fst (fold (call V) cs s))"
  by (induction cs arbitrary: s) (simp_all add: sorted_keys_call)

lemma sorted_keys_after: "sorted_keys (tsmap_after V cs u)"
  unfolding tsmap_after_def by (rule sorted_keys_fold) (simp add: sorted_keys_def)

lemma emplace_returns_entry:
  assumes "sorted_keys m"
  shows "fst (emplace_if_not_found V k args m) < length (snd (emplace_if_not_found V k args m))"
    and "fst (snd (emplace_if_not_found V k args m) ! fst (emplace_if_not_found V k args m)) = k"
    and "k \<notin> fst ` set m \<Longrightarrow>
         snd (snd (emplace_if_not_found V k args m) ! fst (emplace_if_not_found V k args m)) = V args"
  using assms lower_bound_position(1) [OF assms, of k]
  by (cases "k \<in> fst ` set m";
      simp add: emplace_present emplace_absent lower_bound_present nth_append)+

subsection \<open>Lookup\<close>

text \<open>
  What \<open>find\<close> computes on a sorted vector: the first entry whose key is not below \<open>k\<close>, and
  \<open>nullptr\<close> only when every key is below \<open>k\<close>. A key that is present is found.
\<close>

lemma length_takeWhile_eq_iff:
  "length (takeWhile P xs) = length xs \<longleftrightarrow> (\<forall>x \<in> set xs. P x)"
  using length_takeWhile_le [of P] by (induction xs) (auto simp: le_Suc_eq)

lemma find_tsmap_none_iff:
  assumes "sorted_keys m"
  shows "find_tsmap m k = None \<longleftrightarrow> (\<forall>l \<in> set m. fst l < k)"
  using assms by (simp add: find_tsmap_def Let_def lower_bound_takeWhile length_takeWhile_eq_iff)

lemma find_tsmap_present:
  assumes "sorted_keys m" "k \<in> fst ` set m"
  shows "find_tsmap m k = Some (lower_bound m k)" "fst (m ! lower_bound m k) = k"
  using assms lower_bound_present [OF assms] by (simp_all add: find_tsmap_def Let_def)

lemma find_tsmap_some:
  assumes "sorted_keys m" "find_tsmap m k = Some found"
  shows "found < length m \<and> k \<le> fst (m ! found) \<and> (\<forall>j<found. fst (m ! j) < k)"
proof -
  from assms(2) have f: "found = lower_bound m k" "found \<noteq> length m"
    by (auto simp: find_tsmap_def Let_def split: if_splits)
  with lower_bound_position(1) [OF assms(1), of k] have "found < length m" by simp
  with f lower_bound_position(2,3) [OF assms(1)] show ?thesis by simp
qed

lemma scenario_empty_map:
  "find_tsmap ([] :: (nat, int) tsmap) 1 = None \<and>
   emplace_if_not_found id (1::nat) (10::int) [] = (0, [(1, 10)]) \<and>
   find_tsmap [(1::nat, 10::int)] 1 = Some 0 \<and>
   emplace_if_not_found id (1::nat) (99::int) [(1, 10)] = (0, [(1, 10)])"
  by code_simp

text \<open>
  \<^bold>\<open>C1.\<close> The claim: \<open>find(k)\<close> returns a pointer to the value stored under \<open>k\<close> when \<open>k\<close>
  is present and \<open>nullptr\<close> when it is absent, never a pointer to the value of another key.
  The code does not compare the key at the position found. In the map that
  \<open>emplace_if_not_found(2, 20)\<close> builds from the empty one, key 1 is absent, and \<open>find(1)\<close>
  returns the pointer to the value 20 stored under key 2.
\<close>

theorem find_absent_key_yields_other_entry:
  "tsmap_after id [Emplace_if_not_found (2::nat) (20::int)] () = [(2, 20)] \<and>
   (1::nat) \<notin> fst ` set [(2::nat, 20::int)] \<and>
   find_tsmap [(2::nat, 20::int)] 1 = Some 0 \<and>
   [(2::nat, 20::int)] ! 0 = (2, 20)"
  by code_simp

subsection \<open>The invariant and the insertion position\<close>

text \<open>
  \<^bold>\<open>C7.\<close> After any sequence of \<open>find\<close>, \<open>emplace_if_not_found\<close> and \<open>add_if_not_found\<close>
  calls that starts from the empty map, the entries are sorted ascending by key and no two
  entries have equal keys; an insertion of an absent key puts the new entry at the lower-bound
  position of the key: every entry in front of it has a smaller key, every entry behind it a
  larger one.
\<close>

theorem tsmap_sorted_unique_keys:
  assumes "m = tsmap_after V cs u"
  shows "sorted (map fst m) \<and> distinct (map fst m) \<and>
    (k \<notin> fst ` set m \<longrightarrow>
       lower_bound m k \<le> length m \<and>
       (\<forall>j < lower_bound m k. fst (m ! j) < k) \<and>
       (\<forall>j. lower_bound m k \<le> j \<and> j < length m \<longrightarrow> k < fst (m ! j)) \<and>
       emplace_if_not_found V k args m =
         (lower_bound m k, take (lower_bound m k) m @ (k, V args) # drop (lower_bound m k) m) \<and>
       add_if_not_found k lambda m u' =
         ((lower_bound m k,
           take (lower_bound m k) m @ (k, fst (lambda u')) # drop (lower_bound m k) m),
          snd (lambda u')))"
proof -
  have m: "sorted_keys m" using assms by (simp add: sorted_keys_after)
  show ?thesis
    using m sorted_keys_distinct [OF m] lower_bound_position [OF m]
    by (auto simp: lower_bound_above emplace_absent add_absent)
qed

theorem tsmap_sorted_unique_keys_witness:
  "tsmap_after id [Emplace_if_not_found 3 30, Add_if_not_found 1 (\<lambda>u::nat. (10, Suc u)),
                   Find 2, Emplace_if_not_found 3 99] 0 = [(1::nat, 10::int), (3, 30)] \<and>
   sorted (map fst [(1::nat, 10::int), (3, 30)]) \<and>
   distinct (map fst [(1::nat, 10::int), (3, 30)]) \<and>
   (2::nat) \<notin> fst ` set [(1::nat, 10::int), (3, 30)] \<and>
   lower_bound [(1::nat, 10::int), (3, 30)] 2 = 1 \<and>
   emplace_if_not_found id 2 20 [(1::nat, 10::int), (3, 30)] = (1, [(1, 10), (2, 20), (3, 30)]) \<and>
   add_if_not_found 2 (\<lambda>u::nat. (20, Suc u)) [(1::nat, 10::int), (3, 30)] 5 =
     ((1, [(1, 10), (2, 20), (3, 30)]), 6)"
proof -
  have m: "tsmap_after id [Emplace_if_not_found 3 30, Add_if_not_found 1 (\<lambda>u::nat. (10, Suc u)),
                     Find 2, Emplace_if_not_found 3 99] 0 = [(1::nat, 10::int), (3, 30)]"
    by code_simp
  have k: "(2::nat) \<notin> fst ` set [(1::nat, 10::int), (3, 30)]" by simp
  have lb: "lower_bound [(1::nat, 10::int), (3, 30)] 2 = 1" by code_simp
  show ?thesis
    using m k lb
      tsmap_sorted_unique_keys [where k = 2 and V = id and args = 20
        and lambda = "\<lambda>u. (20, Suc u)" and u' = 5, OF m [symmetric]]
    by simp
qed

subsection \<open>Inserting the same key twice\<close>

text \<open>
  \<^bold>\<open>C8.\<close> Two calls of \<open>emplace_if_not_found\<close> with the same key return the same reference and the
  same stored value: the second call returns what the first one left in the map and does not
  use its own constructor arguments; and the map has no two entries with equal keys before,
  between and after the two calls.
\<close>

theorem emplace_twice_same_value:
  assumes "m = tsmap_after V cs u"
  shows "(let (r1, m1) = emplace_if_not_found V k args1 m;
              (r2, m2) = emplace_if_not_found V k args2 m1
          in r2 = r1 \<and> m2 = m1 \<and> r1 < length m1 \<and> fst (m1 ! r1) = k \<and>
             snd (m2 ! r2) = snd (m1 ! r1) \<and>
             (k \<notin> fst ` set m \<longrightarrow> snd (m2 ! r2) = V args1) \<and>
             distinct (map fst m) \<and> distinct (map fst m1) \<and> distinct (map fst m2))"
proof -
  have m: "sorted_keys m" using assms by (simp add: sorted_keys_after)
  obtain r1 m1 where e1: "emplace_if_not_found V k args1 m = (r1, m1)" by fastforce
  have m1: "sorted_keys m1" using sorted_keys_emplace [OF m, of V k args1] e1 by simp
  have r1: "r1 < length m1" "fst (m1 ! r1) = k" "k \<notin> fst ` set m \<Longrightarrow> snd (m1 ! r1) = V args1"
    using emplace_returns_entry(1) [OF m, of V k args1] emplace_returns_entry(2) [OF m, of V k args1]
      emplace_returns_entry(3) [OF m, of k V args1] e1 by simp_all
  have k1: "k \<in> fst ` set m1" using r1(1,2) by (metis image_eqI nth_mem)
  have e2: "emplace_if_not_found V k args2 m1 = (r1, m1)"
    using emplace_present [OF m1 k1] lower_bound_unique [OF m1 r1(1,2)] by simp
  show ?thesis
    using e1 e2 r1 sorted_keys_distinct [OF m] sorted_keys_distinct [OF m1] by simp
qed

theorem emplace_twice_same_value_witness:
  "tsmap_after id [Emplace_if_not_found 1 10] () = [(1::nat, 10::int)] \<and>
   emplace_if_not_found id (2::nat) (20::int) [(1, 10)] = (1, [(1, 10), (2, 20)]) \<and>
   emplace_if_not_found id (2::nat) (99::int) [(1, 10), (2, 20)] = (1, [(1, 10), (2, 20)]) \<and>
   (2::nat) \<notin> fst ` set [(1::nat, 10::int)] \<and>
   snd ([(1::nat, 10::int), (2, 20)] ! 1) = id 20"
proof -
  have m: "tsmap_after id [Emplace_if_not_found 1 10] () = [(1::nat, 10::int)]"
    by code_simp
  have e1: "emplace_if_not_found id (2::nat) (20::int) [(1, 10)] = (1, [(1, 10), (2, 20)])"
    by code_simp
  have e2: "emplace_if_not_found id (2::nat) (99::int) [(1, 10), (2, 20)] = (1, [(1, 10), (2, 20)])"
    by code_simp
  show ?thesis
    using m e1 e2
      emplace_twice_same_value [where V = id and k = 2 and ?args1.0 = 20 and ?args2.0 = 99,
        OF m [symmetric]]
    by simp
qed

subsection \<open>The factory of \<open>add_if_not_found\<close>\<close>

text \<open>
  \<^bold>\<open>C9.\<close> \<open>add_if_not_found(k, factory)\<close> calls the factory exactly once when \<open>k\<close> is absent
  and stores its result as the value at \<open>k\<close>; when \<open>k\<close> is present it does not call the
  factory and returns the existing entry. The calls are counted by \<open>counted\<close>.
\<close>

theorem add_if_not_found_factory_calls:
  assumes "m = tsmap_after V cs u0"
  shows "(k \<notin> fst ` set m \<longrightarrow>
            (\<exists>found m'. add_if_not_found k (counted lambda) m (n, u) =
                 ((found, m'), (Suc n, snd (lambda u))) \<and>
               found < length m' \<and> m' ! found = (k, fst (lambda u)))) \<and>
         (k \<in> fst ` set m \<longrightarrow>
            (\<exists>found. add_if_not_found k (counted lambda) m (n, u) = ((found, m), (n, u)) \<and>
               found < length m \<and> fst (m ! found) = k))"
proof -
  have m: "sorted_keys m" using assms by (simp add: sorted_keys_after)
  have c: "counted lambda (n, u) = (fst (lambda u), Suc n, snd (lambda u))"
    by (simp add: counted_def split: prod.splits)
  show ?thesis
    using m lower_bound_position(1) [OF m, of k]
    by (auto simp: add_absent add_present c lower_bound_present nth_append)
qed

theorem add_if_not_found_factory_calls_witness:
  "tsmap_after id [Emplace_if_not_found 1 10] () = [(1::nat, 10::int)] \<and>
   (2::nat) \<notin> fst ` set [(1::nat, 10::int)] \<and>
   (1::nat) \<in> fst ` set [(1::nat, 10::int)] \<and>
   add_if_not_found 2 (counted (\<lambda>u::unit. (20, u))) [(1::nat, 10::int)] (0, ()) =
     ((1, [(1, 10), (2, 20)]), (1, ())) \<and>
   add_if_not_found 1 (counted (\<lambda>u::unit. (99, u))) [(1::nat, 10::int)] (0, ()) =
     ((0, [(1, 10)]), (0, ()))"
proof -
  have m: "tsmap_after id [Emplace_if_not_found 1 10] () = [(1::nat, 10::int)]"
    by code_simp
  have a: "(2::nat) \<notin> fst ` set [(1::nat, 10::int)]" by simp
  have p: "(1::nat) \<in> fst ` set [(1::nat, 10::int)]" by simp
  have e2: "add_if_not_found 2 (counted (\<lambda>u::unit. (20, u))) [(1::nat, 10::int)] (0, ()) =
     ((1, [(1, 10), (2, 20)]), (1, ()))"
    by code_simp
  have e1: "add_if_not_found 1 (counted (\<lambda>u::unit. (99, u))) [(1::nat, 10::int)] (0, ()) =
     ((0, [(1, 10)]), (0, ()))"
    by code_simp
  show ?thesis
    using m a p e1 e2
      add_if_not_found_factory_calls [where k = 2 and lambda = "\<lambda>u::unit. (20::int, u)"
        and n = 0 and u = "()", OF m [symmetric]]
      add_if_not_found_factory_calls [where k = 1 and lambda = "\<lambda>u::unit. (99::int, u)"
        and n = 0 and u = "()", OF m [symmetric]]
    by simp
qed

subsection \<open>A present key leaves the map alone\<close>

text \<open>
  \<^bold>\<open>C10.\<close> When the key is already present, \<open>emplace_if_not_found\<close> and \<open>add_if_not_found\<close>
  return the map as it was: no entry is added, removed, reordered or overwritten, the factory
  is not run, and both return the reference to the entry that holds the key.
\<close>

theorem present_key_unchanged:
  assumes "m = tsmap_after V cs u0" and "k \<in> fst ` set m"
  shows "snd (emplace_if_not_found V k args m) = m \<and>
         snd (fst (add_if_not_found k lambda m u)) = m \<and>
         snd (add_if_not_found k lambda m u) = u \<and>
         fst (fst (add_if_not_found k lambda m u)) = fst (emplace_if_not_found V k args m) \<and>
         fst (emplace_if_not_found V k args m) < length m \<and>
         fst (m ! fst (emplace_if_not_found V k args m)) = k"
proof -
  have m: "sorted_keys m" using assms by (simp add: sorted_keys_after)
  show ?thesis
    using m assms(2) by (simp add: add_present emplace_present lower_bound_present)
qed

theorem present_key_unchanged_witness:
  "tsmap_after id [Emplace_if_not_found 1 10] () = [(1::nat, 10::int)] \<and>
   (1::nat) \<in> fst ` set [(1::nat, 10::int)] \<and>
   emplace_if_not_found id (1::nat) (99::int) [(1, 10)] = (0, [(1, 10)]) \<and>
   add_if_not_found (1::nat) (\<lambda>u::nat. (99::int, Suc u)) [(1, 10)] 0 = ((0, [(1, 10)]), 0)"
proof -
  have m: "tsmap_after id [Emplace_if_not_found 1 10] () = [(1::nat, 10::int)]"
    by code_simp
  have p: "(1::nat) \<in> fst ` set [(1::nat, 10::int)]" by simp
  have e: "emplace_if_not_found id (1::nat) (99::int) [(1, 10)] = (0, [(1, 10)])"
    by code_simp
  have a: "add_if_not_found (1::nat) (\<lambda>u::nat. (99::int, Suc u)) [(1, 10)] 0 = ((0, [(1, 10)]), 0)"
    by code_simp
  show ?thesis
    using m p e a
      present_key_unchanged [where V = id and args = 99 and lambda = "\<lambda>u::nat. (99::int, Suc u)"
        and u = 0, OF m [symmetric] p]
    by simp
qed


section \<open>The limiter\<close>

subsection \<open>Changing the limit\<close>

text \<open>
  \<^bold>\<open>C6.\<close> \<open>increase_limit(d)\<close> stores and returns \<open>L + d\<close> and \<open>decrease_limit(d)\<close> stores and
  returns \<open>L - d\<close>, both computed modulo \<open>2\<^sup>6\<^sup>4\<close> with no floor and no ceiling; a decrease by more
  than the current limit does not stop at zero but wraps around.
\<close>

theorem limit_adjustment_wraps:
  "increase_limit d l = (m_limit l + d, l\<lparr>m_limit := m_limit l + d\<rparr>) \<and>
   unat (fst (increase_limit d l)) = (unat (m_limit l) + unat d) mod 2 ^ 64 \<and>
   decrease_limit d l = (m_limit l - d, l\<lparr>m_limit := m_limit l - d\<rparr>) \<and>
   uint (fst (decrease_limit d l)) = (uint (m_limit l) - uint d) mod 2 ^ 64 \<and>
   (m_limit l < d \<longrightarrow>
      fst (decrease_limit d l) \<noteq> 0 \<and>
      unat (fst (decrease_limit d l)) = 2 ^ 64 - (unat d - unat (m_limit l)))"
proof -
  have a: "unat (m_limit l + d) = (unat (m_limit l) + unat d) mod 2 ^ 64"
    by (simp add: unat_word_ariths)
  have b: "uint (m_limit l - d) = (uint (m_limit l) - uint d) mod 2 ^ 64"
    by (simp add: uint_word_ariths)
  have c: "m_limit l - d \<noteq> 0 \<and> unat (m_limit l - d) = 2 ^ 64 - (unat d - unat (m_limit l))"
    if "m_limit l < d"
  proof -
    from that have lt: "unat (m_limit l) < unat d" by (simp add: word_less_nat_alt)
    have "unat d < 2 ^ 64" using unsigned_less [of d] by simp
    with lt show ?thesis
      by (auto simp: unat_sub_if_size word_size)
  qed
  show ?thesis
    using a b c by (simp add: increase_limit_def decrease_limit_def)
qed

theorem limit_adjustment_wraps_witness:
  "m_limit (limiter_init 1) < 2 \<and>
   fst (decrease_limit 2 (limiter_init 1)) = - 1 \<and>
   fst (decrease_limit 2 (limiter_init 1)) \<noteq> 0 \<and>
   unat (fst (decrease_limit 2 (limiter_init 1))) =
     2 ^ 64 - (unat (2 :: 64 word) - unat (m_limit (limiter_init 1))) \<and>
   fst (increase_limit (- 1) (limiter_init 2)) = 1"
proof -
  have h: "m_limit (limiter_init 1) < 2" by (simp add: limiter_init_def)
  have d: "fst (decrease_limit 2 (limiter_init 1)) = - 1"
    using limit_adjustment_wraps [of 2 "limiter_init 1"] by (simp add: limiter_init_def)
  have i: "fst (increase_limit (- 1) (limiter_init 2)) = 1"
    using limit_adjustment_wraps [of "- 1" "limiter_init 2"] by (simp add: limiter_init_def)
  show ?thesis
    using h d i limit_adjustment_wraps [of 2 "limiter_init 1"] by blast
qed

subsection \<open>Reading the descriptor\<close>

lemma async_read_shorter:
  "async_read this this_update yield w = Some (count, yield', w') \<Longrightarrow> length yield' < length yield"
  by (induction yield arbitrary: w) (auto simp: Let_def less_Suc_eq split: if_splits)

lemma wait_shorter:
  "wait yield l = Some (count, yield', l') \<Longrightarrow> length yield' < length yield"
  by (auto simp: wait_def Let_def split: option.splits dest: async_read_shorter)

lemma async_read_Some:
  "async_read this this_update yield w = Some (count, yield', w') \<Longrightarrow>
   \<exists>n<length yield. yield' = drop (Suc n) yield \<and>
     descriptor (this (run_others (take (Suc n) yield) w)) \<noteq> 0 \<and>
     count = sint (descriptor (this (run_others (take (Suc n) yield) w))) \<and>
     w' = this_update (\<lambda>f. f\<lparr>descriptor := 0\<rparr>) (run_others (take (Suc n) yield) w)"
proof (induction yield arbitrary: w)
  case Nil
  then show ?case by simp
next
  case (Cons others yield)
  show ?case
  proof (cases "descriptor (this (others w)) = 0")
    case True
    with Cons.prems have "async_read this this_update yield (others w) = Some (count, yield', w')"
      by (simp add: Let_def)
    from Cons.IH [OF this] obtain n where "n < length yield" "yield' = drop (Suc n) yield"
      "descriptor (this (run_others (take (Suc n) yield) (others w))) \<noteq> 0"
      "count = sint (descriptor (this (run_others (take (Suc n) yield) (others w))))"
      "w' = this_update (\<lambda>f. f\<lparr>descriptor := 0\<rparr>) (run_others (take (Suc n) yield) (others w))"
      by blast
    then show ?thesis
      by (intro exI [of _ "Suc n"]) (simp add: run_others_def)
  next
    case False
    with Cons.prems show ?thesis
      by (intro exI [of _ 0]) (auto simp: Let_def run_others_def)
  qed
qed

lemma wait_Some:
  assumes "wait yield l = Some (count, yield', l')"
  shows "\<exists>n<length yield. yield' = drop (Suc n) yield \<and>
     count = descriptor (fd (run_others (take (Suc n) yield) l)) \<and> count \<noteq> 0 \<and>
     l' = (run_others (take (Suc n) yield) l)
            \<lparr>fd := \<lparr>descriptor = 0\<rparr>,
             m_outstanding := m_outstanding (run_others (take (Suc n) yield) l) - count\<rparr>"
proof -
  from assms obtain c w where r: "async_read fd fd_update yield l = Some (c, yield', w)"
    and c: "count = word_of_int c" and l': "l' = w\<lparr>m_outstanding := m_outstanding w - count\<rparr>"
    by (auto simp: wait_def Let_def split: option.splits)
  from async_read_Some [OF r] obtain n where n: "n < length yield" "yield' = drop (Suc n) yield"
     "descriptor (fd (run_others (take (Suc n) yield) l)) \<noteq> 0"
     "c = sint (descriptor (fd (run_others (take (Suc n) yield) l)))"
     "w = fd_update (\<lambda>f. f\<lparr>descriptor := 0\<rparr>) (run_others (take (Suc n) yield) l)"
    by blast
  show ?thesis
    using n c l' by (intro exI [of _ n]) simp
qed

text \<open>One completion signal, where the counter has room for it.\<close>

lemma signal_room:
  assumes "unat (descriptor (fd l)) < eventfd_max"
  shows "signal l = l\<lparr>fd := \<lparr>descriptor = descriptor (fd l) + 1\<rparr>\<rparr>"
    and "unat (descriptor (fd l) + 1) = unat (descriptor (fd l)) + 1"
proof -
  have ne: "(1 :: 64 word) \<noteq> - 1" by simp
  have "unat (descriptor (fd l)) + 1 < 2 ^ 64" using assms by (simp add: eventfd_max_def)
  then show "unat (descriptor (fd l) + 1) = unat (descriptor (fd l)) + 1"
    using unat_add_lem [of "descriptor (fd l)" 1] by simp
  show "signal l = l\<lparr>fd := \<lparr>descriptor = descriptor (fd l) + 1\<rparr>\<rparr>"
    using assms ne by (simp add: signal_def async_write_def)
qed

subsection \<open>Admission\<close>

lemma next_job_unfold:
  "next_job this yield l =
     (if m_limit l = 0 \<or> m_outstanding l < m_limit l
      then Some (\<lparr>completed = False, limit = this\<rparr>, yield, l\<lparr>m_outstanding := m_outstanding l + 1\<rparr>)
      else (case wait yield l of
              None \<Rightarrow> None
            | Some (count, yield', l') \<Rightarrow> next_job this yield' l'))"
  by (subst next_job.simps) (simp add: Let_def)

lemma next_job_Some:
  "next_job this yield l = Some (j, yield', l') \<Longrightarrow>
   j = \<lparr>completed = False, limit = this\<rparr> \<and> length yield' \<le> length yield \<and>
   (\<exists>l0. (m_limit l0 = 0 \<or> m_outstanding l0 < m_limit l0) \<and>
         l' = l0\<lparr>m_outstanding := m_outstanding l0 + 1\<rparr>)"
proof (induction this yield l rule: next_job.induct)
  case (1 this yield l)
  show ?case
  proof (cases "m_limit l = 0 \<or> m_outstanding l < m_limit l")
    case True
    with "1.prems" show ?thesis
      by (subst (asm) next_job_unfold) auto
  next
    case False
    with "1.prems" obtain count y1 l1 where w: "wait yield l = Some (count, y1, l1)"
      and n: "next_job this y1 l1 = Some (j, yield', l')"
      by (subst (asm) next_job_unfold) (auto split: option.splits)
    have "j = \<lparr>completed = False, limit = this\<rparr> \<and> length yield' \<le> length y1 \<and>
      (\<exists>l0. (m_limit l0 = 0 \<or> m_outstanding l0 < m_limit l0) \<and>
         l' = l0\<lparr>m_outstanding := m_outstanding l0 + 1\<rparr>)"
      using "1.IH" [OF refl _ w refl refl n] False by simp
    with wait_shorter [OF w] show ?thesis by auto
  qed
qed

lemma next_job_immediately_iff:
  "(\<exists>j l'. next_job this yield l = Some (j, yield, l')) \<longleftrightarrow>
   (m_limit l = 0 \<or> m_outstanding l < m_limit l)"
proof
  assume "\<exists>j l'. next_job this yield l = Some (j, yield, l')"
  then obtain j l' where s: "next_job this yield l = Some (j, yield, l')" by blast
  show "m_limit l = 0 \<or> m_outstanding l < m_limit l"
  proof (rule ccontr)
    assume c: "\<not> (m_limit l = 0 \<or> m_outstanding l < m_limit l)"
    with s obtain count y1 l1 where w: "wait yield l = Some (count, y1, l1)"
      and n: "next_job this y1 l1 = Some (j, yield, l')"
      by (subst (asm) next_job_unfold) (auto split: option.splits)
    from next_job_Some [OF n] wait_shorter [OF w] show False by simp
  qed
next
  assume "m_limit l = 0 \<or> m_outstanding l < m_limit l"
  then show "\<exists>j l'. next_job this yield l = Some (j, yield, l')"
    by (subst next_job_unfold) simp
qed

text \<open>
  \<^bold>\<open>C3.\<close> \<open>next_job\<close> admits without suspending (the yield context comes back untouched)
  exactly when, at the check, the limit is 0 or \<open>m_outstanding\<close> is below the limit. Otherwise
  it waits on the descriptor: the count that the read returns is the whole accumulated count,
  not 0, it is subtracted from \<open>m_outstanding\<close> as a whole and the descriptor is reset; then
  the loop starts again from the state it finds, reading \<open>m_limit\<close> anew. On admission the
  job returned is fresh and bound to this limiter, and \<open>m_outstanding\<close> is one more than at
  the check that let the caller through.
\<close>

theorem next_job_admission:
  "((\<exists>j l'. next_job this yield l = Some (j, yield, l')) \<longleftrightarrow>
      (m_limit l = 0 \<or> m_outstanding l < m_limit l)) \<and>
   next_job this yield l =
     (if m_limit l = 0 \<or> m_outstanding l < m_limit l
      then Some (\<lparr>completed = False, limit = this\<rparr>, yield, l\<lparr>m_outstanding := m_outstanding l + 1\<rparr>)
      else (case wait yield l of
              None \<Rightarrow> None
            | Some (count, yield', l') \<Rightarrow> next_job this yield' l')) \<and>
   (\<forall>count yield' l'. wait yield l = Some (count, yield', l') \<longrightarrow>
      (\<exists>n<length yield. yield' = drop (Suc n) yield \<and>
         count = descriptor (fd (run_others (take (Suc n) yield) l)) \<and> count \<noteq> 0 \<and>
         l' = (run_others (take (Suc n) yield) l)
                \<lparr>fd := \<lparr>descriptor = 0\<rparr>,
                 m_outstanding := m_outstanding (run_others (take (Suc n) yield) l) - count\<rparr>)) \<and>
   (\<forall>j yield' l'. next_job this yield l = Some (j, yield', l') \<longrightarrow>
      j = \<lparr>completed = False, limit = this\<rparr> \<and>
      (\<exists>l0. (m_limit l0 = 0 \<or> m_outstanding l0 < m_limit l0) \<and>
            l' = l0\<lparr>m_outstanding := m_outstanding l0 + 1\<rparr>))"
  using next_job_immediately_iff [of this yield l] next_job_unfold [of this yield l]
    wait_Some [of yield l] next_job_Some [of this yield l]
  by blast

theorem next_job_admission_witness:
  "next_job (7::nat) [signal] (limiter_init 2) =
     Some (\<lparr>completed = False, limit = 7\<rparr>, [signal], (limiter_init 2)\<lparr>m_outstanding := 1\<rparr>) \<and>
   wait [\<lambda>l. signal (signal l)] \<lparr>fd = \<lparr>descriptor = 0\<rparr>, m_limit = 2, m_outstanding = 2\<rparr> =
     Some (2, [], \<lparr>fd = \<lparr>descriptor = 0\<rparr>, m_limit = 2, m_outstanding = 0\<rparr>) \<and>
   next_job (7::nat) [\<lambda>l. signal (signal l)] \<lparr>fd = \<lparr>descriptor = 0\<rparr>, m_limit = 2, m_outstanding = 2\<rparr> =
     Some (\<lparr>completed = False, limit = 7\<rparr>, [],
           \<lparr>fd = \<lparr>descriptor = 0\<rparr>, m_limit = 2, m_outstanding = 1\<rparr>) \<and>
   next_job (7::nat) [signal] \<lparr>fd = \<lparr>descriptor = 0\<rparr>, m_limit = 2, m_outstanding = 2\<rparr> =
     Some (\<lparr>completed = False, limit = 7\<rparr>, [],
           \<lparr>fd = \<lparr>descriptor = 0\<rparr>, m_limit = 2, m_outstanding = 2\<rparr>)"
proof -
  note unfold = next_job_admission [THEN conjunct2, THEN conjunct1]
  let ?full = "\<lparr>fd = \<lparr>descriptor = 0\<rparr>, m_limit = 2, m_outstanding = 2\<rparr>"
  have s1: "signal ?full = \<lparr>fd = \<lparr>descriptor = 1\<rparr>, m_limit = 2, m_outstanding = 2\<rparr>"
    using signal_room(1) [of ?full] by (simp add: eventfd_max_def)
  have s2: "signal (signal ?full) = \<lparr>fd = \<lparr>descriptor = 2\<rparr>, m_limit = 2, m_outstanding = 2\<rparr>"
    using signal_room(1) [of "\<lparr>fd = \<lparr>descriptor = 1\<rparr>, m_limit = 2, m_outstanding = 2\<rparr>"]
    by (simp add: s1 eventfd_max_def)
  have w2: "wait [\<lambda>l. signal (signal l)] ?full =
      Some (2, [], \<lparr>fd = \<lparr>descriptor = 0\<rparr>, m_limit = 2, m_outstanding = 0\<rparr>)"
    by (simp add: wait_def s2 Let_def)
  have w1: "wait [signal] ?full =
      Some (1, [], \<lparr>fd = \<lparr>descriptor = 0\<rparr>, m_limit = 2, m_outstanding = 1\<rparr>)"
    by (simp add: wait_def s1 Let_def)
  have a: "next_job (7::nat) [signal] (limiter_init 2) =
     Some (\<lparr>completed = False, limit = 7\<rparr>, [signal], (limiter_init 2)\<lparr>m_outstanding := 1\<rparr>)"
    by (subst unfold) (simp add: limiter_init_def)
  have b: "next_job (7::nat) [\<lambda>l. signal (signal l)] ?full =
      next_job 7 [] \<lparr>fd = \<lparr>descriptor = 0\<rparr>, m_limit = 2, m_outstanding = 0\<rparr>"
    by (subst unfold) (simp add: w2)
  have c: "next_job (7::nat) [] \<lparr>fd = \<lparr>descriptor = 0\<rparr>, m_limit = 2, m_outstanding = 0\<rparr> =
      Some (\<lparr>completed = False, limit = 7\<rparr>, [],
           \<lparr>fd = \<lparr>descriptor = 0\<rparr>, m_limit = 2, m_outstanding = 1\<rparr>)"
    by (subst unfold) simp
  have d: "next_job (7::nat) [signal] ?full =
      next_job 7 [] \<lparr>fd = \<lparr>descriptor = 0\<rparr>, m_limit = 2, m_outstanding = 1\<rparr>"
    by (subst unfold) (simp add: w1)
  have e: "next_job (7::nat) [] \<lparr>fd = \<lparr>descriptor = 0\<rparr>, m_limit = 2, m_outstanding = 1\<rparr> =
      Some (\<lparr>completed = False, limit = 7\<rparr>, [],
           \<lparr>fd = \<lparr>descriptor = 0\<rparr>, m_limit = 2, m_outstanding = 2\<rparr>)"
    by (subst unfold) simp
  show ?thesis
    using a w2 b c d e by simp
qed

subsection \<open>Draining\<close>

lemma wait_for_all_outstanding_unfold:
  "wait_for_all_outstanding yield l =
     (if m_outstanding l \<noteq> 0
      then (case wait yield l of
              None \<Rightarrow> None
            | Some (count, yield', l') \<Rightarrow> wait_for_all_outstanding yield' l')
      else Some (yield, l))"
  by (subst wait_for_all_outstanding.simps) simp

lemma wait_for_all_outstanding_Some:
  "wait_for_all_outstanding yield l = Some (yield', l') \<Longrightarrow>
   m_outstanding l' = 0 \<and> length yield' \<le> length yield"
proof (induction yield l rule: wait_for_all_outstanding.induct)
  case (1 yield l)
  show ?case
  proof (cases "m_outstanding l = 0")
    case True
    with "1.prems" show ?thesis
      by (subst (asm) wait_for_all_outstanding_unfold) auto
  next
    case False
    with "1.prems" obtain count y1 l1 where w: "wait yield l = Some (count, y1, l1)"
      and n: "wait_for_all_outstanding y1 l1 = Some (yield', l')"
      by (subst (asm) wait_for_all_outstanding_unfold) (auto split: option.splits)
    have "m_outstanding l' = 0 \<and> length yield' \<le> length y1"
      using "1.IH" [OF False w refl refl n] .
    with wait_shorter [OF w] show ?thesis by auto
  qed
qed

lemma wait_for_all_outstanding_immediately_iff:
  "(\<exists>l'. wait_for_all_outstanding yield l = Some (yield, l')) \<longleftrightarrow> m_outstanding l = 0"
proof
  assume "\<exists>l'. wait_for_all_outstanding yield l = Some (yield, l')"
  then obtain l' where s: "wait_for_all_outstanding yield l = Some (yield, l')" by blast
  show "m_outstanding l = 0"
  proof (rule ccontr)
    assume c: "m_outstanding l \<noteq> 0"
    with s obtain count y1 l1 where w: "wait yield l = Some (count, y1, l1)"
      and n: "wait_for_all_outstanding y1 l1 = Some (yield, l')"
      by (subst (asm) wait_for_all_outstanding_unfold) (auto split: option.splits)
    from wait_for_all_outstanding_Some [OF n] wait_shorter [OF w] show False by simp
  qed
next
  assume "m_outstanding l = 0"
  then show "\<exists>l'. wait_for_all_outstanding yield l = Some (yield, l')"
    by (subst wait_for_all_outstanding_unfold) simp
qed

text \<open>
  \<^bold>\<open>C4.\<close> \<open>wait_for_all_outstanding\<close> returns only in a state with \<open>m_outstanding = 0\<close>.
  While the count is not zero it waits on the descriptor and subtracts each whole batch that
  the read returns. With \<open>m_outstanding = 0\<close> on entry, and only then, it returns at once:
  the yield context and the limiter come back as they were, nothing is read.
\<close>

theorem wait_for_all_outstanding_drains:
  "(\<forall>yield' l'. wait_for_all_outstanding yield l = Some (yield', l') \<longrightarrow> m_outstanding l' = 0) \<and>
   wait_for_all_outstanding yield l =
     (if m_outstanding l \<noteq> 0
      then (case wait yield l of
              None \<Rightarrow> None
            | Some (count, yield', l') \<Rightarrow> wait_for_all_outstanding yield' l')
      else Some (yield, l)) \<and>
   (\<forall>count yield' l'. wait yield l = Some (count, yield', l') \<longrightarrow>
      (\<exists>n<length yield. yield' = drop (Suc n) yield \<and>
         count = descriptor (fd (run_others (take (Suc n) yield) l)) \<and> count \<noteq> 0 \<and>
         l' = (run_others (take (Suc n) yield) l)
                \<lparr>fd := \<lparr>descriptor = 0\<rparr>,
                 m_outstanding := m_outstanding (run_others (take (Suc n) yield) l) - count\<rparr>)) \<and>
   ((\<exists>l'. wait_for_all_outstanding yield l = Some (yield, l')) \<longleftrightarrow> m_outstanding l = 0)"
  using wait_for_all_outstanding_Some [of yield l]
    wait_for_all_outstanding_unfold [of yield l] wait_Some [of yield l]
    wait_for_all_outstanding_immediately_iff [of yield l]
  by blast

theorem wait_for_all_outstanding_drains_witness:
  "wait_for_all_outstanding [signal] (limiter_init 2) = Some ([signal], limiter_init 2) \<and>
   wait [signal, \<lambda>l. signal (signal l)] \<lparr>fd = \<lparr>descriptor = 0\<rparr>, m_limit = 2, m_outstanding = 3\<rparr> =
     Some (1, [\<lambda>l. signal (signal l)], \<lparr>fd = \<lparr>descriptor = 0\<rparr>, m_limit = 2, m_outstanding = 2\<rparr>) \<and>
   wait [\<lambda>l. signal (signal l)] \<lparr>fd = \<lparr>descriptor = 0\<rparr>, m_limit = 2, m_outstanding = 2\<rparr> =
     Some (2, [], \<lparr>fd = \<lparr>descriptor = 0\<rparr>, m_limit = 2, m_outstanding = 0\<rparr>) \<and>
   wait_for_all_outstanding [signal, \<lambda>l. signal (signal l)]
       \<lparr>fd = \<lparr>descriptor = 0\<rparr>, m_limit = 2, m_outstanding = 3\<rparr> =
     Some ([], \<lparr>fd = \<lparr>descriptor = 0\<rparr>, m_limit = 2, m_outstanding = 0\<rparr>) \<and>
   m_outstanding \<lparr>fd = \<lparr>descriptor = 0\<rparr>, m_limit = 2, m_outstanding = 0\<rparr> = 0"
proof -
  note unfold = wait_for_all_outstanding_drains [THEN conjunct2, THEN conjunct1]
  let ?three = "\<lparr>fd = \<lparr>descriptor = 0\<rparr>, m_limit = 2, m_outstanding = 3\<rparr>"
  let ?two = "\<lparr>fd = \<lparr>descriptor = 0\<rparr>, m_limit = 2, m_outstanding = 2\<rparr>"
  let ?none = "\<lparr>fd = \<lparr>descriptor = 0\<rparr>, m_limit = 2, m_outstanding = 0\<rparr>"
  have s3: "signal ?three = \<lparr>fd = \<lparr>descriptor = 1\<rparr>, m_limit = 2, m_outstanding = 3\<rparr>"
    using signal_room(1) [of ?three] by (simp add: eventfd_max_def)
  have s1: "signal ?two = \<lparr>fd = \<lparr>descriptor = 1\<rparr>, m_limit = 2, m_outstanding = 2\<rparr>"
    using signal_room(1) [of ?two] by (simp add: eventfd_max_def)
  have s2: "signal (signal ?two) = \<lparr>fd = \<lparr>descriptor = 2\<rparr>, m_limit = 2, m_outstanding = 2\<rparr>"
    using signal_room(1) [of "\<lparr>fd = \<lparr>descriptor = 1\<rparr>, m_limit = 2, m_outstanding = 2\<rparr>"]
    by (simp add: s1 eventfd_max_def)
  have w1: "wait [signal, \<lambda>l. signal (signal l)] ?three = Some (1, [\<lambda>l. signal (signal l)], ?two)"
    by (simp add: wait_def s3 Let_def)
  have w2: "wait [\<lambda>l. signal (signal l)] ?two = Some (2, [], ?none)"
    by (simp add: wait_def s2 Let_def)
  have a: "wait_for_all_outstanding [signal] (limiter_init 2) = Some ([signal], limiter_init 2)"
    by (subst unfold) (simp add: limiter_init_def)
  have b: "wait_for_all_outstanding [signal, \<lambda>l. signal (signal l)] ?three =
      wait_for_all_outstanding [\<lambda>l. signal (signal l)] ?two"
    by (subst unfold) (simp add: w1)
  have c: "wait_for_all_outstanding [\<lambda>l. signal (signal l)] ?two = wait_for_all_outstanding [] ?none"
    by (subst unfold) (simp add: w2)
  have d: "wait_for_all_outstanding [] ?none = Some ([], ?none)"
    by (subst unfold) simp
  show ?thesis
    using a w1 w2 b c d by simp
qed

subsection \<open>The loops return when the jobs complete\<close>

text \<open>
  The others are the owners of outstanding jobs: during one suspension \<open>k\<close> of them call
  \<open>done\<close> for the first time, which is \<open>signal\<close> applied \<open>k\<close> times. When every outstanding
  job is completed in this way, a signal either pending in the descriptor or sent during the
  suspensions, \<open>wait_for_all_outstanding\<close> returns, with nothing outstanding and the
  descriptor drained.
\<close>

lemma wait_skip:
  "descriptor (fd (others l)) = 0 \<Longrightarrow> wait (others # yield) l = wait yield (others l)"
  by (simp add: wait_def Let_def)

lemma wait_read:
  "descriptor (fd (others l)) \<noteq> 0 \<Longrightarrow>
   wait (others # yield) l =
     Some (descriptor (fd (others l)), yield,
           (others l)\<lparr>fd := \<lparr>descriptor = 0\<rparr>,
                      m_outstanding := m_outstanding (others l) - descriptor (fd (others l))\<rparr>)"
  by (simp add: wait_def Let_def)

lemma funpow_signal:
  "unat (descriptor (fd l)) + k \<le> eventfd_max \<Longrightarrow>
   (signal ^^ k) l = l\<lparr>fd := \<lparr>descriptor = descriptor (fd l) + of_nat k\<rparr>\<rparr> \<and>
   unat (descriptor (fd l) + of_nat k) = unat (descriptor (fd l)) + k"
proof (induction k)
  case 0
  then show ?case by simp
next
  case (Suc k)
  define c where "c = descriptor (fd l) + of_nat k"
  from Suc have ih: "(signal ^^ k) l = l\<lparr>fd := \<lparr>descriptor = c\<rparr>\<rparr>"
    "unat c = unat (descriptor (fd l)) + k"
    by (simp_all add: c_def)
  have r: "unat (descriptor (fd ((signal ^^ k) l))) < eventfd_max"
    using Suc.prems by (simp add: ih)
  have e: "descriptor (fd l) + of_nat (Suc k) = c + 1"
    by (simp add: c_def ac_simps)
  have "(signal ^^ Suc k) l = l\<lparr>fd := \<lparr>descriptor = c + 1\<rparr>\<rparr>"
    using signal_room(1) [OF r] by (simp add: ih)
  moreover have "unat (c + 1) = unat (descriptor (fd l)) + Suc k"
    using signal_room(2) [OF r] by (simp add: ih)
  ultimately show ?case
    by (simp only: e)
qed

text \<open>
  The counts of \<open>ks\<close> are the completions during the successive suspensions.
\<close>

lemma wait_for_all_outstanding_returns:
  assumes "unat (descriptor (fd l)) + sum_list ks = unat (m_outstanding l)"
      and "unat (m_outstanding l) \<le> eventfd_max"
      and "m_outstanding l = 0 \<or> ks \<noteq> []"
  shows "\<exists>yield'. wait_for_all_outstanding (map (\<lambda>k. signal ^^ k) ks @ yield) l =
           Some (yield', l\<lparr>fd := \<lparr>descriptor = 0\<rparr>, m_outstanding := 0\<rparr>)"
  using assms
proof (induction ks arbitrary: l)
  case Nil
  then have "m_outstanding l = 0" "descriptor (fd l) = 0"
    by (simp_all add: unat_0_iff)
  then show ?case
    by (subst wait_for_all_outstanding_unfold) simp
next
  case (Cons k ks)
  show ?case
  proof (cases "m_outstanding l = 0")
    case True
    with Cons.prems(1) have "descriptor (fd l) = 0" by (simp add: unat_0_iff)
    with True show ?thesis
      by (subst wait_for_all_outstanding_unfold) simp
  next
    case False
    let ?c = "descriptor (fd l)"
    have room: "unat ?c + k \<le> eventfd_max" using Cons.prems(1,2) by simp
    note sk = funpow_signal [OF room]
    show ?thesis
    proof (cases "?c + of_nat k = 0")
      case True
      then have "unat ?c + k = 0" using sk by simp
      then have z: "?c = 0" "k = 0" by (simp_all add: unat_0_iff)
      have "wait_for_all_outstanding (map (\<lambda>k. signal ^^ k) (k # ks) @ yield) l =
          (case wait (map (\<lambda>k. signal ^^ k) ks @ yield) l of
             None \<Rightarrow> None
           | Some (count, yield', l') \<Rightarrow> wait_for_all_outstanding yield' l')"
        using False z by (subst wait_for_all_outstanding_unfold) (simp add: wait_skip)
      also have "\<dots> = wait_for_all_outstanding (map (\<lambda>k. signal ^^ k) ks @ yield) l"
        using False
        by (subst wait_for_all_outstanding_unfold [of "map (\<lambda>k. signal ^^ k) ks @ yield" l]) simp
      finally have step: "wait_for_all_outstanding (map (\<lambda>k. signal ^^ k) (k # ks) @ yield) l =
          wait_for_all_outstanding (map (\<lambda>k. signal ^^ k) ks @ yield) l" .
      have ne: "ks \<noteq> []"
      proof
        assume "ks = []"
        with Cons.prems(1) z have "unat (m_outstanding l) = 0" by simp
        with False show False by (simp add: unat_0_iff)
      qed
      have "\<exists>yield'. wait_for_all_outstanding (map (\<lambda>k. signal ^^ k) ks @ yield) l =
           Some (yield', l\<lparr>fd := \<lparr>descriptor = 0\<rparr>, m_outstanding := 0\<rparr>)"
        using Cons.prems z ne by (intro Cons.IH) simp_all
      with step show ?thesis by simp
    next
      case nz: False
      let ?l2 = "l\<lparr>fd := \<lparr>descriptor = 0\<rparr>, m_outstanding := m_outstanding l - (?c + of_nat k)\<rparr>"
      have le: "unat (?c + of_nat k) \<le> unat (m_outstanding l)"
        using Cons.prems(1) sk by simp
      then have "?c + of_nat k \<le> m_outstanding l" by (simp add: word_le_nat_alt)
      then have sub: "unat (m_outstanding l - (?c + of_nat k)) =
          unat (m_outstanding l) - unat (?c + of_nat k)"
        by (rule unat_sub)
      have w: "wait (map (\<lambda>k. signal ^^ k) (k # ks) @ yield) l =
          Some (?c + of_nat k, map (\<lambda>k. signal ^^ k) ks @ yield, ?l2)"
        using nz by (simp add: wait_read sk)
      have step: "wait_for_all_outstanding (map (\<lambda>k. signal ^^ k) (k # ks) @ yield) l =
          wait_for_all_outstanding (map (\<lambda>k. signal ^^ k) ks @ yield) ?l2"
        using False by (subst wait_for_all_outstanding_unfold) (simp only: w, simp)
      have a: "unat (descriptor (fd ?l2)) + sum_list ks = unat (m_outstanding ?l2)"
        using Cons.prems(1) sk sub by simp
      have b: "unat (m_outstanding ?l2) \<le> eventfd_max"
        using Cons.prems(2) sub by simp
      have c: "m_outstanding ?l2 = 0 \<or> ks \<noteq> []"
      proof (cases ks)
        case Nil
        with a have "unat (m_outstanding ?l2) = 0" by simp
        then show ?thesis by (simp only: unat_0_iff) simp
      next
        case (Cons x xs)
        then show ?thesis by simp
      qed
      have "\<exists>yield'. wait_for_all_outstanding (map (\<lambda>k. signal ^^ k) ks @ yield) ?l2 =
           Some (yield', ?l2\<lparr>fd := \<lparr>descriptor = 0\<rparr>, m_outstanding := 0\<rparr>)"
        using a b c by (rule Cons.IH)
      with step show ?thesis by simp
    qed
  qed
qed

text \<open>
  A caller blocked at the limit is admitted as soon as enough jobs have completed to bring
  \<open>m_outstanding\<close> below the limit; with nobody to resume it, it stays blocked.
\<close>

lemma next_job_after_completions:
  assumes "m_limit l \<noteq> 0" and "\<not> m_outstanding l < m_limit l"
      and "descriptor (fd l) = 0"
      and "0 < k" and "k \<le> unat (m_outstanding l)" and "k \<le> eventfd_max"
      and "unat (m_outstanding l) - k < unat (m_limit l)"
  shows "next_job this ((signal ^^ k) # yield) l =
    Some (\<lparr>completed = False, limit = this\<rparr>, yield,
          l\<lparr>fd := \<lparr>descriptor = 0\<rparr>, m_outstanding := m_outstanding l - of_nat k + 1\<rparr>)"
proof -
  have room: "unat (descriptor (fd l)) + k \<le> eventfd_max" using assms(3,6) by simp
  note sk = funpow_signal [OF room]
  have uk: "unat (of_nat k :: 64 word) = k" using sk assms(3) by simp
  then have nz: "(of_nat k :: 64 word) \<noteq> 0" using assms(4) by auto
  let ?l2 = "l\<lparr>fd := \<lparr>descriptor = 0\<rparr>, m_outstanding := m_outstanding l - of_nat k\<rparr>"
  have w: "wait ((signal ^^ k) # yield) l = Some (of_nat k, yield, ?l2)"
    using nz assms(3) sk by (simp add: wait_read)
  have "(of_nat k :: 64 word) \<le> m_outstanding l"
    using assms(5) uk by (simp add: word_le_nat_alt)
  then have "unat (m_outstanding l - of_nat k) = unat (m_outstanding l) - k"
    using uk by (simp add: unat_sub)
  then have adm: "m_outstanding ?l2 < m_limit ?l2"
    using assms(7) by (simp add: word_less_nat_alt)
  have "next_job this ((signal ^^ k) # yield) l = next_job this yield ?l2"
    using assms(1,2) by (subst next_job_unfold) (simp add: w)
  also have "\<dots> = Some (\<lparr>completed = False, limit = this\<rparr>, yield,
          ?l2\<lparr>m_outstanding := m_outstanding ?l2 + 1\<rparr>)"
    using adm by (subst next_job_unfold) simp
  finally show ?thesis by simp
qed

lemma next_job_blocked:
  assumes "m_limit l \<noteq> 0" and "\<not> m_outstanding l < m_limit l"
  shows "next_job this [] l = None"
  using assms by (subst next_job_unfold) (simp add: wait_def)


text \<open>
  The limit is read anew after every wake-up, and only then: when the others lower the limit
  to 1 while one of two jobs completes, the caller stays blocked; a raised limit alone does not
  wake a blocked caller; with the next completion it is admitted under the raised limit.
\<close>

lemma next_job_rereads_limit:
  "next_job (7::nat) [\<lambda>l. snd (decrease_limit 1 (signal l))]
      \<lparr>fd = \<lparr>descriptor = 0\<rparr>, m_limit = 2, m_outstanding = 2\<rparr> = None \<and>
   next_job (7::nat) [\<lambda>l. snd (increase_limit 1 l)]
      \<lparr>fd = \<lparr>descriptor = 0\<rparr>, m_limit = 2, m_outstanding = 2\<rparr> = None \<and>
   next_job (7::nat) [\<lambda>l. snd (increase_limit 1 l), signal]
      \<lparr>fd = \<lparr>descriptor = 0\<rparr>, m_limit = 2, m_outstanding = 2\<rparr> =
     Some (\<lparr>completed = False, limit = 7\<rparr>, [],
           \<lparr>fd = \<lparr>descriptor = 0\<rparr>, m_limit = 3, m_outstanding = 2\<rparr>)"
proof -
  let ?full = "\<lparr>fd = \<lparr>descriptor = 0\<rparr>, m_limit = 2, m_outstanding = 2\<rparr>"
  have s: "signal \<lparr>fd = \<lparr>descriptor = 0\<rparr>, m_limit = n, m_outstanding = 2\<rparr> =
      \<lparr>fd = \<lparr>descriptor = 1\<rparr>, m_limit = n, m_outstanding = 2\<rparr>" for n
    using signal_room(1) [of "\<lparr>fd = \<lparr>descriptor = 0\<rparr>, m_limit = n, m_outstanding = 2\<rparr>"]
    by (simp add: eventfd_max_def)
  have a: "next_job (7::nat) [\<lambda>l. snd (decrease_limit 1 (signal l))] ?full =
      next_job 7 [] \<lparr>fd = \<lparr>descriptor = 0\<rparr>, m_limit = 1, m_outstanding = 1\<rparr>"
    by (subst next_job_unfold) (simp add: wait_read s decrease_limit_def)
  have b: "next_job (7::nat) [] \<lparr>fd = \<lparr>descriptor = 0\<rparr>, m_limit = 1, m_outstanding = 1\<rparr> = None"
    by (rule next_job_blocked) simp_all
  have c: "next_job (7::nat) [\<lambda>l. snd (increase_limit 1 l)] ?full = None"
    by (subst next_job_unfold) (simp add: wait_def increase_limit_def Let_def)
  have d: "next_job (7::nat) [\<lambda>l. snd (increase_limit 1 l), signal] ?full =
      next_job 7 [] \<lparr>fd = \<lparr>descriptor = 0\<rparr>, m_limit = 3, m_outstanding = 1\<rparr>"
    by (subst next_job_unfold) (simp add: wait_def increase_limit_def Let_def s)
  have e: "next_job (7::nat) [] \<lparr>fd = \<lparr>descriptor = 0\<rparr>, m_limit = 3, m_outstanding = 1\<rparr> =
      Some (\<lparr>completed = False, limit = 7\<rparr>, [],
           \<lparr>fd = \<lparr>descriptor = 0\<rparr>, m_limit = 3, m_outstanding = 2\<rparr>)"
    by (subst next_job_unfold) simp
  show ?thesis
    by (simp only: a b c d e)
qed

subsection \<open>The job\<close>

lemma job_done_first:
  "\<not> completed j \<Longrightarrow>
   job_done efn j s =
     (j\<lparr>completed := True\<rparr>,
      s\<lparr>limiters := (limiters s)(limit j := signal (limiters s (limit j))),
        user := (case fst (async_write (fd (limiters s (limit j))) 1) of
                   Completed error bytes \<Rightarrow>
                     if error \<noteq> None \<or> bytes \<noteq> 8 then efn error bytes (user s) else user s
                 | Pending \<Rightarrow> user s)\<rparr>)"
  by (simp add: job_done_def signal_def Let_def split: prod.splits)

lemma job_done_again: "completed j \<Longrightarrow> job_done efn j s = (j, s)"
  by (simp add: job_done_def)

lemma job_done_completed: "completed (fst (job_done efn j s))"
  by (simp add: job_done_def Let_def split: prod.splits)

lemma fold_job_done_completed:
  "completed j \<Longrightarrow> fold (\<lambda>efn (j, s). job_done efn j s) efns (j, s) = (j, s)"
  by (induction efns) (simp_all add: job_done_again)

lemma job_lifetime_one_call:
  assumes "\<not> completed j"
  shows "job_lifetime efns j s =
    job_done (case efns of [] \<Rightarrow> (\<lambda>error bytes u. u) | efn # _ \<Rightarrow> efn) j s"
proof (cases efns)
  case Nil
  then show ?thesis by (simp add: job_lifetime_def job_destructor_def)
next
  case (Cons efn rest)
  obtain j1 s1 where d: "job_done efn j s = (j1, s1)" by (cases "job_done efn j s")
  have c: "completed j1" using job_done_completed [of efn j s] d by simp
  have "fold (\<lambda>efn (j, s). job_done efn j s) (efn # rest) (j, s) =
      fold (\<lambda>efn (j, s). job_done efn j s) rest (j1, s1)"
    by (simp add: d)
  also have "\<dots> = (j1, s1)" by (rule fold_job_done_completed [OF c])
  finally have "job_lifetime (efn # rest) j s = job_destructor j1 s1"
    by (simp add: job_lifetime_def)
  also have "\<dots> = (j1, s1)" using c by (simp add: job_destructor_def job_done_again)
  finally show ?thesis using Cons d by simp
qed

lemma next_job_fresh:
  "next_job this yield l = Some (j, yield', l') \<Longrightarrow> j = \<lparr>completed = False, limit = this\<rparr>"
  by (rule next_job_Some [THEN conjunct1])

text \<open>
  \<^bold>\<open>C2.\<close> For a job obtained from \<open>next_job\<close>: the first call of \<open>done\<close> sets \<open>completed\<close>
  and writes the count 1 to the descriptor of the limiter that the job refers to; \<open>done\<close> on a
  completed job changes nothing; the destructor is \<open>done\<close> with a handler that does nothing.
  So the whole life of the job, with any number of explicit calls of \<open>done\<close> (none, one or
  many) before the destructor, has the effect of exactly one first call: one write of the
  count 1 to that limiter and to no other. Where the counter has room for it, the count of
  that limiter's channel goes up by exactly 1, the rest of the limiter and the caller's state
  stay as they were, and no error handler runs.
\<close>

theorem job_signals_exactly_once:
  assumes "next_job this yield l = Some (j, yield', l')"
  shows "completed j = False \<and> limit j = this \<and>
    job_done efn j s =
      (j\<lparr>completed := True\<rparr>,
       s\<lparr>limiters := (limiters s)(this := signal (limiters s this)),
         user := (case fst (async_write (fd (limiters s this)) 1) of
                    Completed error bytes \<Rightarrow>
                      if error \<noteq> None \<or> bytes \<noteq> 8 then efn error bytes (user s) else user s
                  | Pending \<Rightarrow> user s)\<rparr>) \<and>
    (\<forall>efn' j' s'. completed j' \<longrightarrow> job_done efn' j' s' = (j', s')) \<and>
    job_destructor j s = job_done (\<lambda>error bytes u. u) j s \<and>
    job_lifetime efns j s =
      job_done (case efns of [] \<Rightarrow> (\<lambda>error bytes u. u) | efn # _ \<Rightarrow> efn) j s \<and>
    completed (fst (job_lifetime efns j s)) \<and>
    limiters (snd (job_lifetime efns j s)) = (limiters s)(this := signal (limiters s this)) \<and>
    (unat (descriptor (fd (limiters s this))) < eventfd_max \<longrightarrow>
       unat (descriptor (fd (limiters (snd (job_lifetime efns j s)) this))) =
         unat (descriptor (fd (limiters s this))) + 1 \<and>
       m_limit (limiters (snd (job_lifetime efns j s)) this) = m_limit (limiters s this) \<and>
       m_outstanding (limiters (snd (job_lifetime efns j s)) this) = m_outstanding (limiters s this) \<and>
       user (snd (job_lifetime efns j s)) = user s)"
proof -
  have j: "j = \<lparr>completed = False, limit = this\<rparr>" using assms by (rule next_job_fresh)
  then have f: "\<not> completed j" "limit j = this" by simp_all
  have life: "job_lifetime efns j s =
      job_done (case efns of [] \<Rightarrow> (\<lambda>error bytes u. u) | efn # _ \<Rightarrow> efn) j s"
    using f(1) by (rule job_lifetime_one_call)
  have first: "job_done efn j s =
      (j\<lparr>completed := True\<rparr>,
       s\<lparr>limiters := (limiters s)(this := signal (limiters s this)),
         user := (case fst (async_write (fd (limiters s this)) 1) of
                    Completed error bytes \<Rightarrow>
                      if error \<noteq> None \<or> bytes \<noteq> 8 then efn error bytes (user s) else user s
                  | Pending \<Rightarrow> user s)\<rparr>)" for efn
    using job_done_first [OF f(1), of efn s] by (simp add: f(2))
  have fin: "completed (fst (job_lifetime efns j s))"
    by (simp add: life job_done_completed)
  have lims: "limiters (snd (job_lifetime efns j s)) = (limiters s)(this := signal (limiters s this))"
    by (simp add: life first)
  have room: "unat (descriptor (fd (limiters (snd (job_lifetime efns j s)) this))) =
         unat (descriptor (fd (limiters s this))) + 1 \<and>
       m_limit (limiters (snd (job_lifetime efns j s)) this) = m_limit (limiters s this) \<and>
       m_outstanding (limiters (snd (job_lifetime efns j s)) this) = m_outstanding (limiters s this) \<and>
       user (snd (job_lifetime efns j s)) = user s"
    if r: "unat (descriptor (fd (limiters s this))) < eventfd_max"
  proof -
    have w: "fst (async_write (fd (limiters s this)) 1) = Completed None 8"
      using r by (simp add: async_write_def)
    have u: "user (snd (job_lifetime efns j s)) = user s"
      by (simp add: life first w)
    have "limiters (snd (job_lifetime efns j s)) this = signal (limiters s this)"
      by (simp add: lims)
    with signal_room [OF r] u show ?thesis by simp
  qed
  show ?thesis
    using f first fin lims room life by (simp add: job_done_again job_destructor_def)
qed

theorem job_signals_exactly_once_witness:
  "next_job (7::nat) [] (limiter_init 2) =
     Some (\<lparr>completed = False, limit = 7\<rparr>, [], (limiter_init 2)\<lparr>m_outstanding := 1\<rparr>) \<and>
   unat (descriptor (fd (limiters \<lparr>limiters = \<lambda>r. limiter_init 2, user = 0 :: nat\<rparr> (7::nat)))) < eventfd_max \<and>
   completed (fst (job_lifetime [\<lambda>error bytes u. Suc u, \<lambda>error bytes u. Suc u]
      \<lparr>completed = False, limit = 7 :: nat\<rparr> \<lparr>limiters = \<lambda>r. limiter_init 2, user = 0 :: nat\<rparr>)) \<and>
   unat (descriptor (fd (limiters (snd (job_lifetime [\<lambda>error bytes u. Suc u, \<lambda>error bytes u. Suc u]
      \<lparr>completed = False, limit = 7 :: nat\<rparr> \<lparr>limiters = \<lambda>r. limiter_init 2, user = 0 :: nat\<rparr>)) 7))) = 1 \<and>
   user (snd (job_lifetime [\<lambda>error bytes u. Suc u, \<lambda>error bytes u. Suc u]
      \<lparr>completed = False, limit = 7 :: nat\<rparr> \<lparr>limiters = \<lambda>r. limiter_init 2, user = 0 :: nat\<rparr>)) = 0"
proof -
  let ?j = "\<lparr>completed = False, limit = 7 :: nat\<rparr>"
  let ?s = "\<lparr>limiters = \<lambda>r::nat. limiter_init 2, user = 0 :: nat\<rparr>"
  let ?efns = "[\<lambda>(error :: error_code option) (bytes :: nat) u. Suc u, \<lambda>error bytes u. Suc u]"
  have nj: "next_job (7::nat) [] (limiter_init 2) =
     Some (?j, [], (limiter_init 2)\<lparr>m_outstanding := 1\<rparr>)"
    by (subst next_job_unfold) (simp add: limiter_init_def)
  have room: "unat (descriptor (fd (limiters ?s 7))) < eventfd_max"
    by (simp add: limiter_init_def eventfd_max_def)
  note t = job_signals_exactly_once [OF nj, where efns = ?efns and s = ?s]
  have c: "completed (fst (job_lifetime ?efns ?j ?s))"
    using t by blast
  have r: "unat (descriptor (fd (limiters (snd (job_lifetime ?efns ?j ?s)) 7))) =
         unat (descriptor (fd (limiters ?s 7))) + 1 \<and>
       user (snd (job_lifetime ?efns ?j ?s)) = user ?s"
    using t room by blast
  have z: "unat (descriptor (fd (limiters ?s 7))) = 0" "user ?s = 0"
    by (simp_all add: limiter_init_def)
  show ?thesis
    using nj room c r z by simp
qed

text \<open>
  The scenario of the spec: with limit 2, two calls are admitted at once and a third one
  blocks; when the owner of the first job calls \<open>done\<close>, the blocked call is admitted and
  \<open>m_outstanding\<close> is 2 again.
\<close>

lemma scenario_limit_two:
  "next_job (7::nat) [] (limiter_init 2) =
     Some (\<lparr>completed = False, limit = 7\<rparr>, [],
           \<lparr>fd = \<lparr>descriptor = 0\<rparr>, m_limit = 2, m_outstanding = 1\<rparr>) \<and>
   next_job (7::nat) [] \<lparr>fd = \<lparr>descriptor = 0\<rparr>, m_limit = 2, m_outstanding = 1\<rparr> =
     Some (\<lparr>completed = False, limit = 7\<rparr>, [],
           \<lparr>fd = \<lparr>descriptor = 0\<rparr>, m_limit = 2, m_outstanding = 2\<rparr>) \<and>
   next_job (7::nat) [] \<lparr>fd = \<lparr>descriptor = 0\<rparr>, m_limit = 2, m_outstanding = 2\<rparr> = None \<and>
   next_job (7::nat)
      [\<lambda>l. limiters (snd (job_done efn \<lparr>completed = False, limit = 7::nat\<rparr>
                              \<lparr>limiters = \<lambda>r. l, user = u\<rparr>)) 7]
      \<lparr>fd = \<lparr>descriptor = 0\<rparr>, m_limit = 2, m_outstanding = 2\<rparr> =
     Some (\<lparr>completed = False, limit = 7\<rparr>, [],
           \<lparr>fd = \<lparr>descriptor = 0\<rparr>, m_limit = 2, m_outstanding = 2\<rparr>)"
proof -
  let ?full = "\<lparr>fd = \<lparr>descriptor = 0\<rparr>, m_limit = 2, m_outstanding = 2\<rparr>"
  have d: "(\<lambda>l. limiters (snd (job_done efn \<lparr>completed = False, limit = 7::nat\<rparr>
                              \<lparr>limiters = \<lambda>r. l, user = u\<rparr>)) 7) = signal"
    by (rule ext) (simp add: job_done_first)
  have a: "next_job (7::nat) [] (limiter_init 2) =
     Some (\<lparr>completed = False, limit = 7\<rparr>, [],
           \<lparr>fd = \<lparr>descriptor = 0\<rparr>, m_limit = 2, m_outstanding = 1\<rparr>)"
    by (subst next_job_unfold) (simp add: limiter_init_def)
  have b: "next_job (7::nat) [] \<lparr>fd = \<lparr>descriptor = 0\<rparr>, m_limit = 2, m_outstanding = 1\<rparr> =
     Some (\<lparr>completed = False, limit = 7\<rparr>, [], ?full)"
    by (subst next_job_unfold) simp
  have c: "next_job (7::nat) [] ?full = None"
    by (rule next_job_blocked) simp_all
  have e: "next_job (7::nat) [signal] ?full =
     Some (\<lparr>completed = False, limit = 7\<rparr>, [], ?full)"
    using next_job_after_completions [of ?full 1 7 "[]"] by (simp add: eventfd_max_def)
  show ?thesis
    using a b c e by (simp only: d)
qed


section \<open>The unlimited channel\<close>

lemma produced_room:
  assumes "unat (descriptor (unlimited.fd u)) + unat n \<le> eventfd_max"
  shows "produced n u = \<lparr>unlimited.fd = \<lparr>descriptor = descriptor (unlimited.fd u) + n\<rparr>\<rparr>"
    and "unat (descriptor (unlimited.fd u) + n) = unat (descriptor (unlimited.fd u)) + unat n"
proof -
  have "unat n \<le> 2 ^ 64 - 2" using assms by (simp add: eventfd_max_def)
  moreover have "unat (- 1 :: 64 word) = 2 ^ 64 - 1"
    by (simp add: unsigned_minus_1_eq_mask mask_eq_exp_minus_1)
  ultimately have ne: "n \<noteq> - 1" by auto
  have "unat (descriptor (unlimited.fd u)) + unat n < 2 ^ 64"
    using assms by (simp add: eventfd_max_def)
  then show "unat (descriptor (unlimited.fd u) + n) = unat (descriptor (unlimited.fd u)) + unat n"
    using unat_add_lem [of "descriptor (unlimited.fd u)" n] by simp
  show "produced n u = \<lparr>unlimited.fd = \<lparr>descriptor = descriptor (unlimited.fd u) + n\<rparr>\<rparr>"
    using assms ne by (simp add: produced_def async_write_def)
qed

lemma fold_produced:
  "unat (descriptor (unlimited.fd u)) + sum_list (map unat ns) \<le> eventfd_max \<Longrightarrow>
   fold produced ns u = \<lparr>unlimited.fd = \<lparr>descriptor = descriptor (unlimited.fd u) + sum_list ns\<rparr>\<rparr> \<and>
   unat (descriptor (unlimited.fd u) + sum_list ns) =
     unat (descriptor (unlimited.fd u)) + sum_list (map unat ns)"
proof (induction ns arbitrary: u)
  case Nil
  then show ?case by simp
next
  case (Cons n ns)
  have a: "unat (descriptor (unlimited.fd u)) + unat n \<le> eventfd_max"
    using Cons.prems by simp
  note p = produced_room [OF a]
  have b: "unat (descriptor (unlimited.fd (produced n u))) + sum_list (map unat ns) \<le> eventfd_max"
    using Cons.prems by (simp add: p)
  from Cons.IH [OF b] show ?case
    by (simp add: p add.assoc)
qed

text \<open>
  What the others do while the consumer is suspended may be further calls of \<open>produced\<close>:
  \<open>mss\<close> gives the counts produced during each suspension. Whenever \<open>consume\<close> returns, it
  returns the sum of everything produced since the previous \<open>consume\<close>.
\<close>

lemma run_others_produced:
  "run_others (map (fold produced) mss) u = fold produced (concat mss) u"
  by (induction mss arbitrary: u) (simp_all add: run_others_def)

lemma sum_unat_take_le:
  "sum_list (map unat (ns @ concat (take k mss))) \<le> sum_list (map unat (ns @ concat mss))"
proof -
  have "concat mss = concat (take k mss) @ concat (drop k mss)"
    by (metis append_take_drop_id concat_append)
  then have "sum_list (map unat (ns @ concat mss)) =
      sum_list (map unat (ns @ concat (take k mss))) + sum_list (map unat (concat (drop k mss)))"
    by simp
  then show ?thesis by simp
qed

lemma consume_returns_all_produced:
  assumes "descriptor (unlimited.fd u) = 0"
      and "sum_list (map unat (ns @ concat mss)) \<le> eventfd_max"
      and "consume (map (fold produced) mss) (fold produced ns u) = Some (count, yield', u')"
  shows "\<exists>m<length mss. yield' = map (fold produced) (drop (Suc m) mss) \<and>
           count = sum_list (ns @ concat (take (Suc m) mss)) \<and>
           unat count = sum_list (map unat (ns @ concat (take (Suc m) mss))) \<and>
           count \<noteq> 0 \<and>
           u' = \<lparr>unlimited.fd = \<lparr>descriptor = 0\<rparr>\<rparr>"
proof -
  from assms(3) obtain c where r: "async_read unlimited.fd unlimited.fd_update
      (map (fold produced) mss) (fold produced ns u) = Some (c, yield', u')"
    and c: "count = word_of_int c"
    by (auto simp: consume_def split: option.splits)
  from async_read_Some [OF r] obtain m where m: "m < length mss"
    and y: "yield' = drop (Suc m) (map (fold produced) mss)"
    and nz: "descriptor (unlimited.fd
        (run_others (take (Suc m) (map (fold produced) mss)) (fold produced ns u))) \<noteq> 0"
    and cv: "c = sint (descriptor (unlimited.fd
        (run_others (take (Suc m) (map (fold produced) mss)) (fold produced ns u))))"
    and u': "u' = unlimited.fd_update (\<lambda>f. f\<lparr>descriptor := 0\<rparr>)
        (run_others (take (Suc m) (map (fold produced) mss)) (fold produced ns u))"
    by auto
  let ?all = "ns @ concat (take (Suc m) mss)"
  have w: "run_others (take (Suc m) (map (fold produced) mss)) (fold produced ns u) =
      fold produced ?all u"
    by (simp add: take_map run_others_produced)
  have "sum_list (map unat ?all) \<le> eventfd_max"
    using sum_unat_take_le [of ns "Suc m" mss] assms(2) by (rule order_trans)
  with fold_produced [of u ?all] assms(1)
  have f: "fold produced ?all u = \<lparr>unlimited.fd = \<lparr>descriptor = sum_list ?all\<rparr>\<rparr>"
    and s: "unat (sum_list ?all) = sum_list (map unat ?all)"
    by simp_all
  have "count = sum_list ?all" using c cv unfolding w f by simp
  moreover have "count \<noteq> 0" using nz c cv unfolding w f by simp
  moreover have "u' = \<lparr>unlimited.fd = \<lparr>descriptor = 0\<rparr>\<rparr>" using u' unfolding w f by simp
  moreover have "yield' = map (fold produced) (drop (Suc m) mss)" using y by (simp add: drop_map)
  ultimately show ?thesis using m s by (intro exI [of _ m]) simp
qed

text \<open>
  \<^bold>\<open>C5.\<close> On a channel whose count is zero (a fresh one, or one just consumed), after
  \<open>produced(n\<^sub>1)\<close>, \<dots>, \<open>produced(n\<^sub>k)\<close> and with nobody producing any more: whenever the one
  \<open>consume()\<close> that follows returns, after any number of resumptions, the value returned is
  exactly \<open>n\<^sub>1 + \<dots> + n\<^sub>k\<close>, with no wrap-around, and the count is left at zero; and when
  the total is not zero it does return, at its first resumption. The total is taken within the
  limit of the kernel counter.
\<close>

theorem consume_returns_sum:
  assumes "descriptor (unlimited.fd u) = 0"
      and "sum_list (map unat ns) \<le> eventfd_max"
  shows "(\<forall>count yield' u'.
            consume (replicate n id) (fold produced ns u) = Some (count, yield', u') \<longrightarrow>
            count = sum_list ns \<and> unat count = sum_list (map unat ns) \<and>
            descriptor (unlimited.fd u') = 0) \<and>
         (0 < sum_list (map unat ns) \<longrightarrow>
            consume (id # yield) (fold produced ns u) =
              Some (sum_list ns, yield, \<lparr>unlimited.fd = \<lparr>descriptor = 0\<rparr>\<rparr>) \<and>
            unat (sum_list ns) = sum_list (map unat ns))"
proof -
  have f: "fold produced ns u = \<lparr>unlimited.fd = \<lparr>descriptor = sum_list ns\<rparr>\<rparr>"
    and s: "unat (sum_list ns) = sum_list (map unat ns)"
    using fold_produced [of u ns] assms by simp_all
  have idle: "replicate n id = map (fold produced) (replicate n [])"
    by (simp add: fold_Nil [abs_def] id_def)
  have lim: "sum_list (map unat (ns @ concat (replicate n []))) \<le> eventfd_max"
    using assms(2) by simp
  have part: "count = sum_list ns \<and> unat count = sum_list (map unat ns) \<and>
      descriptor (unlimited.fd u') = 0"
    if r: "consume (replicate n id) (fold produced ns u) = Some (count, yield', u')"
    for count yield' u'
  proof -
    from r have "consume (map (fold produced) (replicate n [])) (fold produced ns u) =
        Some (count, yield', u')"
      by (simp only: idle)
    from consume_returns_all_produced [OF assms(1) lim this]
    show ?thesis by auto
  qed
  have tot: "consume (id # yield) (fold produced ns u) =
        Some (sum_list ns, yield, \<lparr>unlimited.fd = \<lparr>descriptor = 0\<rparr>\<rparr>)"
    if "0 < sum_list (map unat ns)"
  proof -
    have "0 < unat (sum_list ns)"
      using that by (simp only: s)
    then have nz: "sum_list ns \<noteq> 0"
      by (rule unat_gt_0 [THEN iffD1])
    then show ?thesis by (simp add: consume_def f Let_def)
  qed
  show ?thesis
    using part tot s by blast
qed

theorem consume_returns_sum_witness:
  "descriptor (unlimited.fd \<lparr>unlimited.fd = \<lparr>descriptor = 0\<rparr>\<rparr>) = 0 \<and>
   sum_list (map unat [3, 0, 4 :: 64 word]) \<le> eventfd_max \<and>
   0 < sum_list (map unat [3, 0, 4 :: 64 word]) \<and>
   consume [id] (fold produced [3, 0, 4] \<lparr>unlimited.fd = \<lparr>descriptor = 0\<rparr>\<rparr>) =
     Some (7, [], \<lparr>unlimited.fd = \<lparr>descriptor = 0\<rparr>\<rparr>) \<and>
   consume (replicate 1 id) (fold produced [3, 0, 4] \<lparr>unlimited.fd = \<lparr>descriptor = 0\<rparr>\<rparr>) =
     Some (sum_list [3, 0, 4], [], \<lparr>unlimited.fd = \<lparr>descriptor = 0\<rparr>\<rparr>) \<and>
   unat (sum_list [3, 0, 4 :: 64 word]) = sum_list (map unat [3, 0, 4 :: 64 word])"
proof -
  let ?u = "\<lparr>unlimited.fd = \<lparr>descriptor = 0\<rparr>\<rparr>"
  have a: "descriptor (unlimited.fd ?u) = 0" by simp
  have b: "sum_list (map unat [3, 0, 4 :: 64 word]) \<le> eventfd_max" by (simp add: eventfd_max_def)
  have c: "0 < sum_list (map unat [3, 0, 4 :: 64 word])" by simp
  note t = consume_returns_sum [OF a b, where n = 1 and yield = "[]"]
  have d: "consume [id] (fold produced [3, 0, 4] ?u) = Some (sum_list [3, 0, 4], [], ?u)"
    and e: "unat (sum_list [3, 0, 4 :: 64 word]) = sum_list (map unat [3, 0, 4 :: 64 word])"
    using t c by blast+
  have r: "replicate 1 id = [id :: unlimited \<Rightarrow> unlimited]" by simp
  show ?thesis
    using a b c d e by (simp only: r) simp
qed

text \<open>
  With a total of zero the descriptor is not readable, and \<open>consume\<close> stays suspended, as the
  channel's contract has it, however often the coroutine could be resumed.
\<close>

lemma consume_zero_total_suspended:
  assumes "descriptor (unlimited.fd u) = 0" and "sum_list (map unat ns) = 0"
  shows "consume (replicate n id) (fold produced ns u) = None"
proof -
  have "sum_list (map unat ns) \<le> eventfd_max"
    by (simp only: assms(2))
  with fold_produced [of u ns] assms(1)
  have g: "fold produced ns u = \<lparr>unlimited.fd = \<lparr>descriptor = sum_list ns\<rparr>\<rparr>"
    and "unat (sum_list ns) = sum_list (map unat ns)"
    by simp_all
  then have "unat (sum_list ns) = 0"
    by (simp only: assms(2))
  then have "sum_list ns = 0"
    by (simp only: unat_0_iff)
  with g have f: "fold produced ns u = \<lparr>unlimited.fd = \<lparr>descriptor = 0\<rparr>\<rparr>"
    by simp
  have "async_read unlimited.fd unlimited.fd_update (replicate n id)
      \<lparr>unlimited.fd = \<lparr>descriptor = 0\<rparr>\<rparr> = None"
    by (induction n) (simp_all add: Let_def)
  then show ?thesis by (simp add: consume_def f)
qed

lemma consume_resets:
  "consume yield u = Some (count, yield', u') \<Longrightarrow> descriptor (unlimited.fd u') = 0 \<and> count \<noteq> 0"
proof -
  assume "consume yield u = Some (count, yield', u')"
  then obtain c where r: "async_read unlimited.fd unlimited.fd_update yield u = Some (c, yield', u')"
    and c: "count = word_of_int c"
    by (auto simp: consume_def split: option.splits)
  from async_read_Some [OF r] show ?thesis using c by auto
qed

end
